theory Spec2Isabelle
  imports Main "HOL-Library.Sublist" "HOL-Library.AList"
begin

section \<open>Python values used by the program\<close>

text \<open>
  The program is \<^verbatim>\<open>__main__.py\<close> of version-sync. Strings are character lists. A
  Python value that is either a string or \<^verbatim>\<open>None\<close> is a \<open>string option\<close>. An exception
  that leaves a function is the \<open>Inl\<close> branch of its result.

  A file's content is the string of its characters as they are stored, carriage returns
  included. The program opens every file in text mode with the default
  \<^verbatim>\<open>newline=None\<close>: reading hands over the content with every line ending, \<^verbatim>\<open>\r\n\<close>, \<^verbatim>\<open>\r\<close>
  or \<^verbatim>\<open>\n\<close>, as \<^verbatim>\<open>\n\<close>, and writing stores every \<^verbatim>\<open>\n\<close> as \<^verbatim>\<open>os.linesep\<close>. That constant
  belongs to the platform, not to the program, so it is the parameter \<open>linesep\<close> of
  every function that writes.
\<close>

datatype py_error = FileNotFoundError | IndexError | KeyError | TypeError | AssertionError

abbreviation NL :: char where
  "NL \<equiv> CHR 0x0A"

abbreviation CR :: char where
  "CR \<equiv> CHR 0x0D"

text \<open>A slice bound of Python: a negative bound counts from the end, and both are clamped.\<close>

definition slice_bound :: "nat \<Rightarrow> int \<Rightarrow> nat" where
  "slice_bound n i = (if i < 0 then nat (int n + i) else min (nat i) n)"

text \<open>\<^verbatim>\<open>xs[a:b]\<close>, \<^verbatim>\<open>xs[:b]\<close> and \<^verbatim>\<open>xs[a:]\<close>.\<close>

definition slice :: "'a list \<Rightarrow> int \<Rightarrow> int \<Rightarrow> 'a list" where
  "slice xs a b = drop (slice_bound (length xs) a) (take (slice_bound (length xs) b) xs)"

definition slice_to :: "'a list \<Rightarrow> int \<Rightarrow> 'a list" where
  "slice_to xs b = take (slice_bound (length xs) b) xs"

definition slice_from :: "'a list \<Rightarrow> int \<Rightarrow> 'a list" where
  "slice_from xs a = drop (slice_bound (length xs) a) xs"

text \<open>The least index at which \<open>sub\<close> occurs in a string.\<close>

fun first_occurrence :: "'a list \<Rightarrow> 'a list \<Rightarrow> nat option" where
  "first_occurrence sub [] = (if sub = [] then Some 0 else None)"
| "first_occurrence sub (x # xs) =
     (if prefix sub (x # xs) then Some 0 else map_option Suc (first_occurrence sub xs))"

text \<open>\<^verbatim>\<open>s.find(sub, start)\<close>: the least index from \<open>start\<close> on at which \<open>sub\<close> occurs, or -1.\<close>

definition str_find :: "string \<Rightarrow> string \<Rightarrow> int \<Rightarrow> int" where
  "str_find s sub start =
     (let k = (if start < 0 then nat (int (length s) + start) else nat start)
      in if length s < k then - 1
         else (case first_occurrence sub (drop k s) of
                 None \<Rightarrow> - 1
               | Some j \<Rightarrow> int (k + j)))"

text \<open>\<^verbatim>\<open>xs[i]\<close>: the position read, or IndexError.\<close>

definition py_index :: "'a list \<Rightarrow> int \<Rightarrow> py_error + nat" where
  "py_index xs i =
     (if 0 \<le> i \<and> i < int (length xs) then Inr (nat i)
      else if i < 0 \<and> - int (length xs) \<le> i then Inr (nat (int (length xs) + i))
      else Inl IndexError)"

text \<open>The lines of a text, each with its newline, as iterating a file or \<^verbatim>\<open>readlines\<close> gives them.\<close>

fun readlines :: "string \<Rightarrow> string list" where
  "readlines [] = []"
| "readlines (c # cs) =
     (if c = NL then [c] # readlines cs
      else (case readlines cs of [] \<Rightarrow> [[c]] | l # ls \<Rightarrow> (c # l) # ls))"

text \<open>
  What a file opened for reading in text mode hands over: \<^verbatim>\<open>\r\n\<close> and a single \<^verbatim>\<open>\r\<close>
  are each read as \<^verbatim>\<open>\n\<close>.
\<close>

fun read_text :: "string \<Rightarrow> string" where
  "read_text [] = []"
| "read_text [c] = (if c = CR then [NL] else [c])"
| "read_text (c # d # cs) =
     (if c = CR then (if d = NL then NL # read_text cs else NL # read_text (d # cs))
      else c # read_text (d # cs))"

text \<open>What a file opened for writing in text mode stores: every \<^verbatim>\<open>\n\<close> as \<^verbatim>\<open>os.linesep\<close>.\<close>

definition write_text :: "string \<Rightarrow> string \<Rightarrow> string" where
  "write_text linesep s = concat (map (\<lambda>c. if c = NL then linesep else [c]) s)"

text \<open>The values of \<^verbatim>\<open>os.linesep\<close>: \<^verbatim>\<open>\n\<close> on POSIX and \<^verbatim>\<open>\r\n\<close> on Windows.\<close>

definition is_linesep :: "string \<Rightarrow> bool" where
  "is_linesep linesep \<longleftrightarrow> linesep = [NL] \<or> linesep = [CR, NL]"

text \<open>The file system: the stored content of each file that can be opened.\<close>

type_synonym fs = "string \<rightharpoonup> string"

section \<open>Extraction and rewriting\<close>

text \<open>The loop of \<^verbatim>\<open>get_version_str\<close> over \<^verbatim>\<open>enumerate(in_file)\<close>; falling off its end returns None.\<close>

fun get_version_loop :: "string list \<Rightarrow> int \<Rightarrow> int \<Rightarrow> int \<Rightarrow> string \<Rightarrow> string option" where
  "get_version_loop [] i line_number position end = None"
| "get_version_loop (line # rest) i line_number position end =
     (if i = line_number - 1 then
        (if end \<noteq> [] then Some (slice line position (str_find line end position))
         else Some (slice line position (- 1)))
      else get_version_loop rest (i + 1) line_number position end)"

definition get_version_str :: "fs \<Rightarrow> string \<Rightarrow> int \<Rightarrow> int \<Rightarrow> string \<Rightarrow> py_error + string option" where
  "get_version_str fs file line_number position end =
     (case fs file of
        None \<Rightarrow> Inl FileNotFoundError
      | Some content \<Rightarrow>
          Inr (get_version_loop (readlines (read_text content)) 0 line_number position end))"

text \<open>The line that \<^verbatim>\<open>set_version_str\<close> stores in place of the target line.\<close>

definition new_line :: "string \<Rightarrow> int \<Rightarrow> string \<Rightarrow> string \<Rightarrow> string" where
  "new_line line position end version =
     (if end = [] \<or> str_find line end position = - 1
      then slice_to line position @ version @ [NL]
      else slice_to line position @ version @ slice_from line (str_find line end position))"

text \<open>The list \<^verbatim>\<open>lines\<close> that \<^verbatim>\<open>set_version_str\<close> passes to \<^verbatim>\<open>writelines\<close>.\<close>

definition set_version_lines ::
  "string list \<Rightarrow> int \<Rightarrow> int \<Rightarrow> string \<Rightarrow> string option \<Rightarrow> py_error + string list" where
  "set_version_lines lines line_number position end version =
     (case py_index lines (line_number - 1) of
        Inl e \<Rightarrow> Inl e
      | Inr k \<Rightarrow>
          (case version of
             None \<Rightarrow> Inl TypeError
           | Some v \<Rightarrow> Inr (lines[k := new_line (lines ! k) position end v])))"

definition set_version_str ::
  "string \<Rightarrow> fs \<Rightarrow> string \<Rightarrow> int \<Rightarrow> int \<Rightarrow> string \<Rightarrow> string option \<Rightarrow> py_error + fs" where
  "set_version_str linesep fs file line_number position end version =
     (case fs file of
        None \<Rightarrow> Inl FileNotFoundError
      | Some content \<Rightarrow>
          (case set_version_lines (readlines (read_text content)) line_number position end
                  version of
             Inl e \<Rightarrow> Inl e
           | Inr lines \<Rightarrow> Inr (fs(file \<mapsto> write_text linesep (concat lines)))))"

section \<open>Comparing versions\<close>

text \<open>
  The dictionary \<^verbatim>\<open>versions\<close> maps a file name to what was extracted from it. Python
  dictionaries keep insertion order, so it is an association list; storing under a key
  is \<^const>\<open>AList.update\<close>.
\<close>

type_synonym versions = "(string \<times> string option) list"

fun versions_match_loop :: "string option \<Rightarrow> versions \<Rightarrow> bool" where
  "versions_match_loop base [] = True"
| "versions_match_loop base ((name, v) # rest) =
     (if base = None then versions_match_loop v rest
      else if base \<noteq> v then False
      else versions_match_loop base rest)"

definition versions_match :: "versions \<Rightarrow> bool" where
  "versions_match versions = versions_match_loop None versions"

text \<open>
  The regular expression \<^verbatim>\<open>\d+\<close> and \<^verbatim>\<open>int\<close> on its matches. Characters are bytes here, so
  the decimal digits are the ten ASCII digits.
\<close>

definition is_digit :: "char \<Rightarrow> bool" where
  "is_digit c = (c \<in> set ''0123456789'')"

function findall_digits :: "string \<Rightarrow> string list" where
  "findall_digits [] = []"
| "findall_digits (c # cs) =
     (if is_digit c then takeWhile is_digit (c # cs) # findall_digits (dropWhile is_digit cs)
      else findall_digits cs)"
  by pat_completeness auto
termination
  by (relation "measure length") (auto simp: less_Suc_eq_le length_dropWhile_le)

definition digit_value :: "char \<Rightarrow> int" where
  "digit_value c = of_char c - 48"

definition int_of_digits :: "string \<Rightarrow> int" where
  "int_of_digits ds = foldl (\<lambda>n c. 10 * n + digit_value c) 0 ds"

definition tokens :: "string \<Rightarrow> int list" where
  "tokens v = map int_of_digits (findall_digits v)"

text \<open>
  The inner loop of \<^verbatim>\<open>get_highest_version\<close> from index \<open>i\<close> on: whether the candidate
  \<open>v_arr\<close> replaces the current \<open>highest_version\<close>.
\<close>

function replaces_from :: "nat \<Rightarrow> int list \<Rightarrow> int list \<Rightarrow> bool" where
  "replaces_from i highest_version v_arr =
     (if i < length highest_version then
        (if i \<ge> length v_arr then False
         else if v_arr ! i > highest_version ! i then True
         else if v_arr ! i < highest_version ! i then False
         else replaces_from (i + 1) highest_version v_arr)
      else False)"
  by pat_completeness auto
termination
  by (relation "measure (\<lambda>(i, h, v). length h - i)") auto

declare replaces_from.simps [simp del]

text \<open>The outer loop, over \<^verbatim>\<open>versions.values()\<close>, with the two variables it updates.\<close>

fun highest_loop ::
  "int list option \<times> string option \<Rightarrow> string option list \<Rightarrow> py_error + string option" where
  "highest_loop (highest_version, highest_str) [] = Inr highest_str"
| "highest_loop (highest_version, highest_str) (None # rest) = Inl TypeError"
| "highest_loop (highest_version, highest_str) (Some v # rest) =
     (let v_arr = tokens v in
      if v_arr = [] then highest_loop (highest_version, highest_str) rest
      else (case highest_version of
              None \<Rightarrow> highest_loop (Some v_arr, Some v) rest
            | Some hv \<Rightarrow>
                if replaces_from 0 hv v_arr then highest_loop (Some v_arr, Some v) rest
                else highest_loop (highest_version, highest_str) rest))"

definition get_highest_version :: "versions \<Rightarrow> py_error + string option" where
  "get_highest_version versions = highest_loop (None, None) (map snd versions)"

section \<open>Processing packages\<close>

text \<open>
  One entry of a package's configuration: the keys \<^verbatim>\<open>file\<close>, \<^verbatim>\<open>line\<close>, \<^verbatim>\<open>char\<close> and
  \<^verbatim>\<open>end\<close> of the dictionary \<^verbatim>\<open>file_config\<close>.
\<close>

record location =
  loc_file :: string
  loc_line :: int
  loc_char :: int
  loc_end :: string

text \<open>The first loop of \<^verbatim>\<open>process_package\<close>, which fills \<^verbatim>\<open>versions\<close>.\<close>

fun read_versions :: "fs \<Rightarrow> location list \<Rightarrow> versions \<Rightarrow> py_error + versions" where
  "read_versions fs [] versions = Inr versions"
| "read_versions fs (file_config # rest) versions =
     (case get_version_str fs (loc_file file_config) (loc_line file_config)
             (loc_char file_config) (loc_end file_config) of
        Inl e \<Rightarrow> Inl e
      | Inr v \<Rightarrow> read_versions fs rest (AList.update (loc_file file_config) v versions))"

text \<open>How an f-string formats a value that is a string or None.\<close>

definition str_of :: "string option \<Rightarrow> string" where
  "str_of v = (case v of None \<Rightarrow> ''None'' | Some s \<Rightarrow> s)"

text \<open>Printed output is the list of the lines printed.\<close>

definition report_mismatch :: "string \<Rightarrow> versions \<Rightarrow> string list" where
  "report_mismatch package versions =
     (''Version mismatch found in '' @ package)
       # map (\<lambda>(name, v). str_of v @ '' in '' @ name) versions @ [[]]"

text \<open>The second loop of \<^verbatim>\<open>process_package\<close>, which rewrites the files that differ.\<close>

fun upgrade_loop ::
  "string \<Rightarrow> fs \<Rightarrow> location list \<Rightarrow> versions \<Rightarrow> string option \<Rightarrow> py_error + fs \<times> string list" where
  "upgrade_loop linesep fs [] versions highest_version = Inr (fs, [])"
| "upgrade_loop linesep fs (file_config # rest) versions highest_version =
     (case map_of versions (loc_file file_config) of
        None \<Rightarrow> Inl KeyError
      | Some v \<Rightarrow>
          if v = highest_version then upgrade_loop linesep fs rest versions highest_version
          else
            (case set_version_str linesep fs (loc_file file_config) (loc_line file_config)
                    (loc_char file_config) (loc_end file_config) highest_version of
               Inl e \<Rightarrow> Inl e
             | Inr fs' \<Rightarrow>
                 (case upgrade_loop linesep fs' rest versions highest_version of
                    Inl e \<Rightarrow> Inl e
                  | Inr (fs'', out) \<Rightarrow>
                      Inr (fs'', (''  Updated '' @ loc_file file_config) # out))))"

text \<open>The result is the new file system, the lines printed and the value returned.\<close>

definition process_package ::
  "string \<Rightarrow> fs \<Rightarrow> string \<Rightarrow> location list \<Rightarrow> bool
    \<Rightarrow> py_error + fs \<times> string list \<times> string option" where
  "process_package linesep fs package_name package_config upgrade =
     (case read_versions fs package_config [] of
        Inl e \<Rightarrow> Inl e
      | Inr versions \<Rightarrow>
          if \<not> versions_match versions then
            (case get_highest_version versions of
               Inl e \<Rightarrow> Inl e
             | Inr highest_version \<Rightarrow>
                 if upgrade then
                   (case upgrade_loop linesep fs package_config versions highest_version of
                      Inl e \<Rightarrow> Inl e
                    | Inr (fs', out) \<Rightarrow>
                        Inr (fs',
                             (''Upgrading '' @ package_name @ '' to version ''
                                @ str_of highest_version) # out @ [[]],
                             None))
                 else Inr (fs, report_mismatch package_name versions, highest_version))
          else Inr (fs, [], None))"

text \<open>The loop of \<^verbatim>\<open>process_config\<close> over \<^verbatim>\<open>config.items()\<close>, which fills \<^verbatim>\<open>upgrades\<close>.\<close>

type_synonym config = "(string \<times> location list) list"

fun packages_loop ::
  "string \<Rightarrow> fs \<Rightarrow> config \<Rightarrow> bool \<Rightarrow> (string \<times> string) list
    \<Rightarrow> py_error + fs \<times> string list \<times> (string \<times> string) list" where
  "packages_loop linesep fs [] upgrade upgrades = Inr (fs, [], upgrades)"
| "packages_loop linesep fs ((package_name, package_config) # rest) upgrade upgrades =
     (case process_package linesep fs package_name package_config upgrade of
        Inl e \<Rightarrow> Inl e
      | Inr (fs', out, upgrade_to) \<Rightarrow>
          (case packages_loop linesep fs' rest upgrade
                  (case upgrade_to of
                     None \<Rightarrow> upgrades
                   | Some version \<Rightarrow>
                       if version = [] then upgrades
                       else AList.update package_name version upgrades) of
             Inl e \<Rightarrow> Inl e
           | Inr (fs'', out', upgrades') \<Rightarrow> Inr (fs'', out @ out', upgrades')))"

definition process_config ::
  "string \<Rightarrow> fs \<Rightarrow> config \<Rightarrow> bool \<Rightarrow> py_error + fs \<times> string list \<times> bool" where
  "process_config linesep fs config upgrade =
     (case packages_loop linesep fs config upgrade [] of
        Inl e \<Rightarrow> Inl e
      | Inr (fs', out, upgrades) \<Rightarrow>
          if upgrades = [] then Inr (fs', out @ [''All versions match''], True)
          else if \<not> upgrade then
            Inr (fs',
                 out @ ''Run with -u to automatically upgrade the following packages:''
                   # map (\<lambda>(package_name, version). package_name @ '' to '' @ version) upgrades,
                 True)
          else Inl AssertionError)"

section \<open>Notions of the specification\<close>


text \<open>A candidate vector wins at the first position, within both vectors, where it is larger.\<close>

definition wins_over :: "int list \<Rightarrow> int list \<Rightarrow> bool" where
  "wins_over v_arr highest_version \<longleftrightarrow>
     (\<exists>k < min (length highest_version) (length v_arr).
        highest_version ! k < v_arr ! k \<and> (\<forall>j < k. v_arr ! j = highest_version ! j))"

text \<open>\<open>sub\<close> occurs in \<open>s\<close> at index \<open>j\<close>.\<close>

definition occurs_at :: "string \<Rightarrow> string \<Rightarrow> nat \<Rightarrow> bool" where
  "occurs_at sub s j \<longleftrightarrow> j + length sub \<le> length s \<and> take (length sub) (drop j s) = sub"

text \<open>A mapping whose values are all strings, as a dictionary of extracted versions.\<close>

definition of_strings :: "(string \<times> string) list \<Rightarrow> versions" where
  "of_strings m = map (\<lambda>(name, s). (name, Some s)) m"

text \<open>
  The selection of the highest version in the words of the specification: the strings
  with an empty token vector are no candidates; the first candidate is the best so far,
  and a later candidate replaces the best so far when its vector wins over it.
\<close>

definition highest_spec :: "string list \<Rightarrow> string option" where
  "highest_spec vs =
     (case filter (\<lambda>v. tokens v \<noteq> []) vs of
        [] \<Rightarrow> None
      | c # cs \<Rightarrow>
          Some (foldl (\<lambda>best v. if wins_over (tokens v) (tokens best) then v else best) c cs))"

text \<open>
  A line as reading gives it: not empty, with no newline before its last character. In a
  list of lines every line but the last ends with the newline.
\<close>

definition line_ok :: "string \<Rightarrow> bool" where
  "line_ok l \<longleftrightarrow> l \<noteq> [] \<and> NL \<notin> set (butlast l)"

definition lines_ok :: "string list \<Rightarrow> bool" where
  "lines_ok ls \<longleftrightarrow>
     (\<forall>i < length ls. line_ok (ls ! i) \<and> (Suc i < length ls \<longrightarrow> last (ls ! i) = NL))"

text \<open>The text of a line: the line up to its newline.\<close>

definition line_text :: "string \<Rightarrow> string" where
  "line_text l = takeWhile (\<lambda>c. c \<noteq> NL) l"

section \<open>Agreement of versions\<close>

lemma versions_match_loop_Some:
  "versions_match_loop (Some b) vs \<longleftrightarrow> (\<forall>v \<in> snd ` set vs. v = Some b)"
  by (induction vs) (auto split: if_splits)

lemma versions_match_first:
  "versions_match (of_strings m) \<longleftrightarrow> (\<forall>s \<in> snd ` set m. s = snd (hd m))"
proof (cases m)
  case Nil
  then show ?thesis by (simp add: versions_match_def of_strings_def)
next
  case (Cons p ps)
  obtain n s where p: "p = (n, s)" by (cases p)
  show ?thesis
    unfolding Cons p versions_match_def of_strings_def
    by (auto simp: versions_match_loop_Some image_iff)
qed

lemma versions_match_any_baseline:
  assumes "b \<in> snd ` set m"
  shows "versions_match (of_strings m) \<longleftrightarrow> (\<forall>s \<in> snd ` set m. s = b)"
proof -
  from assms have "m \<noteq> []" by auto
  then have "snd (hd m) \<in> snd ` set m" by (cases m) auto
  with assms show ?thesis unfolding versions_match_first by metis
qed

text \<open>
  C8. \<^verbatim>\<open>versions_match\<close> on a mapping of strings is true exactly when every value equals
  the first value encountered. It is true for the empty mapping and for every mapping
  whose values are all identical, false for every mapping with two distinct values, and
  the same whichever value of the mapping is taken as the baseline.
\<close>

theorem versions_match_iff_all_identical:
  "(versions_match (of_strings m) \<longleftrightarrow> (\<forall>s \<in> snd ` set m. s = snd (hd m)))
   \<and> versions_match (of_strings [])
   \<and> ((\<forall>s \<in> snd ` set m. \<forall>t \<in> snd ` set m. s = t) \<longrightarrow> versions_match (of_strings m))
   \<and> ((\<exists>s \<in> snd ` set m. \<exists>t \<in> snd ` set m. s \<noteq> t) \<longrightarrow> \<not> versions_match (of_strings m))
   \<and> (\<forall>b \<in> snd ` set m. versions_match (of_strings m) \<longleftrightarrow> (\<forall>s \<in> snd ` set m. s = b))"
proof (intro conjI)
  show "versions_match (of_strings m) \<longleftrightarrow> (\<forall>s \<in> snd ` set m. s = snd (hd m))"
    by (rule versions_match_first)
  show "versions_match (of_strings [])"
    by (simp add: versions_match_def of_strings_def)
  show "(\<forall>s \<in> snd ` set m. \<forall>t \<in> snd ` set m. s = t) \<longrightarrow> versions_match (of_strings m)"
  proof (cases m)
    case Nil
    then show ?thesis by (simp add: versions_match_def of_strings_def)
  next
    case (Cons p ps)
    then have "snd (hd m) \<in> snd ` set m" by simp
    then show ?thesis unfolding versions_match_first by blast
  qed
  show "(\<exists>s \<in> snd ` set m. \<exists>t \<in> snd ` set m. s \<noteq> t) \<longrightarrow> \<not> versions_match (of_strings m)"
    unfolding versions_match_first by metis
  show "\<forall>b \<in> snd ` set m. versions_match (of_strings m) \<longleftrightarrow> (\<forall>s \<in> snd ` set m. s = b)"
    using versions_match_any_baseline by blast
qed

theorem versions_match_iff_all_identical_witness:
  "versions_match (of_strings [(''a.txt'', ''1.2.0''), (''b.txt'', ''1.2.0'')])
   \<and> \<not> versions_match (of_strings [(''a.txt'', ''1.2.0''), (''b.txt'', ''1.3.0'')])"
proof
  have same: "\<forall>s \<in> snd ` set [(''a.txt'', ''1.2.0''), (''b.txt'', ''1.2.0'')].
              \<forall>t \<in> snd ` set [(''a.txt'', ''1.2.0''), (''b.txt'', ''1.2.0'')]. s = t"
    by simp
  show "versions_match (of_strings [(''a.txt'', ''1.2.0''), (''b.txt'', ''1.2.0'')])"
    using versions_match_iff_all_identical [of "[(''a.txt'', ''1.2.0''), (''b.txt'', ''1.2.0'')]"] same
    by blast
  have two: "\<exists>s \<in> snd ` set [(''a.txt'', ''1.2.0''), (''b.txt'', ''1.3.0'')].
             \<exists>t \<in> snd ` set [(''a.txt'', ''1.2.0''), (''b.txt'', ''1.3.0'')]. s \<noteq> t"
    by (intro bexI [of _ "''1.2.0''"] bexI [of _ "''1.3.0''"]) simp_all
  show "\<not> versions_match (of_strings [(''a.txt'', ''1.2.0''), (''b.txt'', ''1.3.0'')])"
    using versions_match_iff_all_identical [of "[(''a.txt'', ''1.2.0''), (''b.txt'', ''1.3.0'')]"] two
    by blast
qed

section \<open>Selecting the highest version\<close>










lemma replaces_from_iff:
  "replaces_from i hv va \<longleftrightarrow>
     (\<exists>k. i \<le> k \<and> k < length hv \<and> k < length va \<and> hv ! k < va ! k \<and> (\<forall>j. i \<le> j \<and> j < k \<longrightarrow> va ! j = hv ! j))"
proof (induction i hv va rule: replaces_from.induct)
  case (1 i hv va)
  show ?case
  proof (cases "i < length hv \<and> i < length va")
    case False
    then show ?thesis by (subst replaces_from.simps) auto
  next
    case True
    consider "va ! i > hv ! i" | "va ! i < hv ! i" | "va ! i = hv ! i" by linarith
    then show ?thesis
    proof cases
      case 1
      then show ?thesis using True by (subst replaces_from.simps) auto
    next
      case 2
      have "\<not> (\<exists>k. i \<le> k \<and> k < length hv \<and> k < length va \<and> hv ! k < va ! k \<and> (\<forall>j. i \<le> j \<and> j < k \<longrightarrow> va ! j = hv ! j))"
      proof
        assume "\<exists>k. i \<le> k \<and> k < length hv \<and> k < length va \<and> hv ! k < va ! k \<and> (\<forall>j. i \<le> j \<and> j < k \<longrightarrow> va ! j = hv ! j)"
        then obtain k where k: "i \<le> k" "hv ! k < va ! k" "\<forall>j. i \<le> j \<and> j < k \<longrightarrow> va ! j = hv ! j" by blast
        show False
        proof (cases "k = i")
          case True then show ?thesis using k 2 by simp
        next
          case False
          then have "i < k" using k by simp
          then have "va ! i = hv ! i" using k by simp
          then show ?thesis using 2 by simp
        qed
      qed
      then show ?thesis using True 2 by (subst replaces_from.simps) auto
    next
      case 3
      have ih: "replaces_from (i + 1) hv va \<longleftrightarrow>
        (\<exists>k. i + 1 \<le> k \<and> k < length hv \<and> k < length va \<and> hv ! k < va ! k \<and> (\<forall>j. i + 1 \<le> j \<and> j < k \<longrightarrow> va ! j = hv ! j))"
        using 1 True 3 by simp
      have "(\<exists>k. i + 1 \<le> k \<and> k < length hv \<and> k < length va \<and> hv ! k < va ! k \<and> (\<forall>j. i + 1 \<le> j \<and> j < k \<longrightarrow> va ! j = hv ! j))
         \<longleftrightarrow> (\<exists>k. i \<le> k \<and> k < length hv \<and> k < length va \<and> hv ! k < va ! k \<and> (\<forall>j. i \<le> j \<and> j < k \<longrightarrow> va ! j = hv ! j))"
        (is "?L \<longleftrightarrow> ?R")
      proof
        assume ?L
        then obtain k where k: "i + 1 \<le> k" "k < length hv" "k < length va" "hv ! k < va ! k"
          "\<forall>j. i + 1 \<le> j \<and> j < k \<longrightarrow> va ! j = hv ! j" by blast
        have "\<forall>j. i \<le> j \<and> j < k \<longrightarrow> va ! j = hv ! j"
        proof (intro allI impI)
          fix j assume "i \<le> j \<and> j < k"
          then show "va ! j = hv ! j" using k(5) 3 by (cases "j = i") auto
        qed
        then show ?R using k by (intro exI[of _ k]) auto
      next
        assume ?R
        then obtain k where k: "i \<le> k" "k < length hv" "k < length va" "hv ! k < va ! k"
          "\<forall>j. i \<le> j \<and> j < k \<longrightarrow> va ! j = hv ! j" by blast
        have "k \<noteq> i" using k(4) 3 by auto
        then have "i + 1 \<le> k" using k(1) by simp
        then show ?L using k by (intro exI[of _ k]) auto
      qed
      then show ?thesis using ih True 3 by (subst replaces_from.simps) auto
    qed
  qed
qed

lemma replaces_from_wins_over: "replaces_from 0 hv va \<longleftrightarrow> wins_over va hv"
  unfolding replaces_from_iff wins_over_def by auto

lemma replaces_from_prefix:
  assumes "prefix hv va \<or> prefix va hv"
  shows "\<not> replaces_from 0 hv va"
proof
  assume "replaces_from 0 hv va"
  then obtain k where k: "k < length hv" "k < length va" "hv ! k < va ! k"
    unfolding replaces_from_iff by blast
  from assms have "hv ! k = va ! k"
    using k(1,2) by (auto simp: prefix_def nth_append)
  then show False using k(3) by simp
qed


lemma highest_loop_Some:
  "highest_loop (Some (tokens best), Some best) (map Some vs) =
     Inr (Some (foldl (\<lambda>best v. if wins_over (tokens v) (tokens best) then v else best) best
                  (filter (\<lambda>v. tokens v \<noteq> []) vs)))"
  by (induction vs arbitrary: best) (simp_all add: Let_def replaces_from_wins_over)

lemma highest_loop_None:
  "highest_loop (None, None) (map Some vs) = Inr (highest_spec vs)"
  by (induction vs) (simp_all add: Let_def highest_spec_def highest_loop_Some)

lemma map_snd_of_strings: "map snd (of_strings m) = map Some (map snd m)"
  by (simp add: of_strings_def case_prod_unfold)

lemma get_highest_version_spec: "get_highest_version (of_strings m) = Inr (highest_spec (map snd m))"
  unfolding get_highest_version_def map_snd_of_strings by (rule highest_loop_None)



lemma foldl_prefix_keep:
  "\<forall>v \<in> set cs. prefix (tokens c) (tokens v) \<or> prefix (tokens v) (tokens c) \<Longrightarrow>
   foldl (\<lambda>best v. if wins_over (tokens v) (tokens best) then v else best) c cs = c"
  using replaces_from_prefix [unfolded replaces_from_wins_over]
  by (induction cs) auto



text \<open>
  C2. When the current vector and a candidate's vector are such that one is a prefix of
  the other, the candidate does not replace the current one, whichever of the two is
  the longer: the comparison runs out of positions without a winner. So a first
  candidate is the result when every later vector is a prefix of its vector or has its
  vector as a prefix.
\<close>

theorem prefix_vector_never_displaces:
  "((prefix hv va \<or> prefix va hv) \<longrightarrow> \<not> replaces_from 0 hv va)
   \<and> ((prefix (tokens best) (tokens v) \<or> prefix (tokens v) (tokens best)) \<longrightarrow>
        highest_loop (Some (tokens best), Some best) (Some v # rest)
          = highest_loop (Some (tokens best), Some best) rest)
   \<and> (tokens first \<noteq> [] \<and>
        (\<forall>v \<in> snd ` set later. prefix (tokens first) (tokens v) \<or> prefix (tokens v) (tokens first))
        \<longrightarrow> get_highest_version (of_strings ((name, first) # later)) = Inr (Some first))
   \<and> \<not> replaces_from 0 [1, 2] [1, 2, 5]
   \<and> \<not> replaces_from 0 [1, 2, 5] [1, 2]
   \<and> get_highest_version (of_strings [(''a.txt'', ''v1.2''), (''b.txt'', ''v1.2.0'')])
       = Inr (Some ''v1.2'')
   \<and> get_highest_version (of_strings [(''b.txt'', ''v1.2.0''), (''a.txt'', ''v1.2'')])
       = Inr (Some ''v1.2.0'')"
proof (intro conjI)
  show "(prefix hv va \<or> prefix va hv) \<longrightarrow> \<not> replaces_from 0 hv va"
    using replaces_from_prefix by blast
  show "(prefix (tokens best) (tokens v) \<or> prefix (tokens v) (tokens best)) \<longrightarrow>
        highest_loop (Some (tokens best), Some best) (Some v # rest)
          = highest_loop (Some (tokens best), Some best) rest"
    using replaces_from_prefix [of "tokens best" "tokens v"] by (simp add: Let_def)
  show "tokens first \<noteq> [] \<and>
        (\<forall>v \<in> snd ` set later. prefix (tokens first) (tokens v) \<or> prefix (tokens v) (tokens first))
        \<longrightarrow> get_highest_version (of_strings ((name, first) # later)) = Inr (Some first)"
  proof
    assume a: "tokens first \<noteq> [] \<and>
        (\<forall>v \<in> snd ` set later. prefix (tokens first) (tokens v) \<or> prefix (tokens v) (tokens first))"
    then have "\<forall>v \<in> set (filter (\<lambda>v. tokens v \<noteq> []) (map snd later)).
                 prefix (tokens first) (tokens v) \<or> prefix (tokens v) (tokens first)"
      by auto
    then have "foldl (\<lambda>best v. if wins_over (tokens v) (tokens best) then v else best) first
                 (filter (\<lambda>v. tokens v \<noteq> []) (map snd later)) = first"
      by (rule foldl_prefix_keep)
    then show "get_highest_version (of_strings ((name, first) # later)) = Inr (Some first)"
      using a by (simp add: get_highest_version_spec highest_spec_def)
  qed
  show "\<not> replaces_from 0 [1, 2] [1, 2, 5]"
    by (rule replaces_from_prefix) simp
  show "\<not> replaces_from 0 [1, 2, 5] [1, 2]"
    by (rule replaces_from_prefix) simp
  show "get_highest_version (of_strings [(''a.txt'', ''v1.2''), (''b.txt'', ''v1.2.0'')])
          = Inr (Some ''v1.2'')"
    by code_simp
  show "get_highest_version (of_strings [(''b.txt'', ''v1.2.0''), (''a.txt'', ''v1.2'')])
          = Inr (Some ''v1.2.0'')"
    by code_simp
qed

theorem prefix_vector_never_displaces_witness:
  "prefix [1, 2] [1, 2, 5 :: int] \<and> \<not> replaces_from 0 [1, 2] [1, 2, 5]
   \<and> get_highest_version
        (of_strings [(''a.txt'', ''1.2''), (''b.txt'', ''1.2.5''), (''c.txt'', ''1'')])
       = Inr (Some ''1.2'')"
proof (intro conjI)
  show p: "prefix [1, 2] [1, 2, 5 :: int]"
    by simp
  show "\<not> replaces_from 0 [1, 2] [1, 2, 5]"
    using prefix_vector_never_displaces [of "[1, 2]" "[1, 2, 5]"] p by blast
  have t: "tokens ''1.2'' = [1, 2]" "tokens ''1.2.5'' = [1, 2, 5]" "tokens ''1'' = [1]"
    by code_simp+
  have "tokens ''1.2'' \<noteq> [] \<and>
        (\<forall>v \<in> snd ` set [(''b.txt'', ''1.2.5''), (''c.txt'', ''1'')].
           prefix (tokens ''1.2'') (tokens v) \<or> prefix (tokens v) (tokens ''1.2''))"
    by (simp add: t)
  then show "get_highest_version
        (of_strings [(''a.txt'', ''1.2''), (''b.txt'', ''1.2.5''), (''c.txt'', ''1'')])
       = Inr (Some ''1.2'')"
    using prefix_vector_never_displaces
      [of _ _ _ _ _ "''1.2''" "[(''b.txt'', ''1.2.5''), (''c.txt'', ''1'')]" "''a.txt''"]
    by blast
qed

section \<open>Slices, search and lines\<close>

lemma slice_nonneg_minus_one:
  assumes "0 \<le> p"
  shows "slice xs p (- 1) = drop (nat p) (butlast xs)"
proof -
  have "nat (int (length xs) + - 1) = length xs - 1" by simp
  moreover have "drop (min (nat p) (length xs)) (butlast xs) = drop (nat p) (butlast xs)"
    by (simp add: min_def)
  ultimately show ?thesis
    using assms by (simp add: slice_def slice_bound_def butlast_conv_take)
qed

lemma slice_to_nonneg: "0 \<le> p \<Longrightarrow> slice_to xs p = take (nat p) xs"
  by (simp add: slice_to_def slice_bound_def min_def)

lemma slice_from_nat: "slice_from xs (int j) = drop j xs"
  by (simp add: slice_from_def slice_bound_def min_def)

lemma occurs_at_prefix: "occurs_at sub s j \<longleftrightarrow> j \<le> length s \<and> prefix sub (drop j s)"
proof
  assume a: "occurs_at sub s j"
  then have "take (length sub) (drop j s) = sub" "j \<le> length s" by (auto simp: occurs_at_def)
  then show "j \<le> length s \<and> prefix sub (drop j s)" by (metis take_is_prefix)
next
  assume a: "j \<le> length s \<and> prefix sub (drop j s)"
  then obtain r where r: "drop j s = sub @ r" by (auto simp: prefix_def)
  then have "length (drop j s) = length sub + length r" by simp
  then have "j + length sub \<le> length s" using a by (simp; linarith)
  then show "occurs_at sub s j" using r by (simp add: occurs_at_def)
qed

lemma first_occurrence_Some:
  "first_occurrence sub s = Some j \<longleftrightarrow> occurs_at sub s j \<and> (\<forall>i < j. \<not> occurs_at sub s i)"
proof (induction s arbitrary: j)
  case Nil
  show ?case by (auto simp: occurs_at_prefix)
next
  case (Cons x xs)
  show ?case
  proof (cases "prefix sub (x # xs)")
    case True
    then have 0: "occurs_at sub (x # xs) 0" by (simp add: occurs_at_prefix)
    then show ?thesis using True by (cases j) auto
  next
    case False
    then have n0: "\<not> occurs_at sub (x # xs) 0" by (simp add: occurs_at_prefix)
    have shift: "occurs_at sub (x # xs) (Suc i) \<longleftrightarrow> occurs_at sub xs i" for i
      by (simp add: occurs_at_prefix)
    show ?thesis
    proof (cases j)
      case 0
      then show ?thesis using False n0 by auto
    next
      case (Suc j')
      have "(\<forall>i < Suc j'. \<not> occurs_at sub (x # xs) i) \<longleftrightarrow> (\<forall>i < j'. \<not> occurs_at sub xs i)"
        using n0 shift by (metis Suc_less_eq less_Suc_eq_0_disj)
      then show ?thesis using False Suc Cons.IH [of j'] shift by auto
    qed
  qed
qed

lemma first_occurrence_None: "first_occurrence sub s = None \<longleftrightarrow> (\<forall>j. \<not> occurs_at sub s j)"
proof
  assume n: "first_occurrence sub s = None"
  show "\<forall>j. \<not> occurs_at sub s j"
  proof (intro allI notI)
    fix j assume "occurs_at sub s j"
    then obtain k where "occurs_at sub s k \<and> (\<forall>i < k. \<not> occurs_at sub s i)"
      using exists_least_iff [of "occurs_at sub s"] by blast
    then have "first_occurrence sub s = Some k" by (simp add: first_occurrence_Some)
    then show False using n by simp
  qed
next
  assume "\<forall>j. \<not> occurs_at sub s j"
  then show "first_occurrence sub s = None"
    using first_occurrence_Some [of sub s] by (cases "first_occurrence sub s") auto
qed

lemma occurs_at_drop: "k \<le> length s \<Longrightarrow> occurs_at sub (drop k s) j \<longleftrightarrow> occurs_at sub s (k + j)"
  by (simp add: occurs_at_def add_ac; linarith)

lemma str_find_not_found:
  assumes "0 \<le> p"
  shows "str_find s sub p = - 1 \<longleftrightarrow> (\<forall>j \<ge> nat p. \<not> occurs_at sub s j)"
proof (cases "length s < nat p")
  case True
  then have "\<forall>j \<ge> nat p. \<not> occurs_at sub s j" by (auto simp: occurs_at_def)
  then show ?thesis using True assms by (simp add: str_find_def)
next
  case False
  then have le: "nat p \<le> length s" by simp
  have eq: "(\<forall>j. \<not> occurs_at sub (drop (nat p) s) j) \<longleftrightarrow> (\<forall>j \<ge> nat p. \<not> occurs_at sub s j)"
  proof
    assume a: "\<forall>j. \<not> occurs_at sub (drop (nat p) s) j"
    show "\<forall>j \<ge> nat p. \<not> occurs_at sub s j"
    proof (intro allI impI)
      fix j assume "nat p \<le> j"
      then have "nat p + (j - nat p) = j" by simp
      then show "\<not> occurs_at sub s j"
        using a occurs_at_drop [OF le, of sub "j - nat p"] by simp
    qed
  next
    assume "\<forall>j \<ge> nat p. \<not> occurs_at sub s j"
    then show "\<forall>j. \<not> occurs_at sub (drop (nat p) s) j"
      using occurs_at_drop [OF le] by simp
  qed
  have "str_find s sub p = - 1 \<longleftrightarrow> first_occurrence sub (drop (nat p) s) = None"
    using False assms by (simp add: str_find_def Let_def split: option.splits)
  then show ?thesis
    using eq first_occurrence_None [of sub "drop (nat p) s"] by simp
qed

lemma str_find_found:
  assumes "0 \<le> p" "str_find s sub p \<noteq> - 1"
  shows "\<exists>j. str_find s sub p = int j \<and> nat p \<le> j \<and> occurs_at sub s j
             \<and> (\<forall>i. nat p \<le> i \<and> i < j \<longrightarrow> \<not> occurs_at sub s i)"
proof -
  have le: "nat p \<le> length s" using assms by (auto simp: str_find_def Let_def split: if_splits)
  then obtain j where j: "first_occurrence sub (drop (nat p) s) = Some j"
    using assms by (auto simp: str_find_def Let_def split: option.splits)
  then have eq: "str_find s sub p = int (nat p + j)"
    using assms le by (simp add: str_find_def)
  have occ: "occurs_at sub s (nat p + j)" "\<forall>i < j. \<not> occurs_at sub s (nat p + i)"
    using j occurs_at_drop [OF le] by (simp_all add: first_occurrence_Some)
  have "\<forall>i. nat p \<le> i \<and> i < nat p + j \<longrightarrow> \<not> occurs_at sub s i"
  proof (intro allI impI)
    fix i assume i: "nat p \<le> i \<and> i < nat p + j"
    then have "i - nat p < j" "i = nat p + (i - nat p)" by auto
    then show "\<not> occurs_at sub s i" using occ(2) by metis
  qed
  then show ?thesis using eq occ(1) by (intro exI [of _ "nat p + j"]) auto
qed

subsection \<open>The extraction loop\<close>

lemma get_version_loop_nth:
  "i \<le> ln - 1 \<Longrightarrow> ln - 1 < i + int (length ls) \<Longrightarrow>
   get_version_loop ls i ln pos end =
     Some (if end \<noteq> [] then slice (ls ! nat (ln - 1 - i)) pos (str_find (ls ! nat (ln - 1 - i)) end pos)
           else slice (ls ! nat (ln - 1 - i)) pos (- 1))"
proof (induction ls arbitrary: i)
  case Nil
  then show ?case by simp
next
  case (Cons l ls)
  show ?case
  proof (cases "i = ln - 1")
    case True
    then show ?thesis by simp
  next
    case False
    then have "i + 1 \<le> ln - 1" "ln - 1 < i + 1 + int (length ls)" using Cons.prems by auto
    then have "get_version_loop ls (i + 1) ln pos end =
     Some (if end \<noteq> [] then slice (ls ! nat (ln - 1 - (i + 1))) pos (str_find (ls ! nat (ln - 1 - (i + 1))) end pos)
           else slice (ls ! nat (ln - 1 - (i + 1))) pos (- 1))"
      by (rule Cons.IH)
    moreover have "nat (ln - 1 - i) = Suc (nat (ln - 1 - (i + 1)))" using False Cons.prems by auto
    ultimately show ?thesis using False by simp
  qed
qed

lemma get_version_loop_None:
  "ln - 1 < i \<or> i + int (length ls) \<le> ln - 1 \<Longrightarrow> get_version_loop ls i ln pos end = None"
  by (induction ls arbitrary: i) auto

lemma get_version_str_nth:
  assumes "fs file = Some content" "1 \<le> ln" "ln \<le> int (length (readlines (read_text content)))"
  shows "get_version_str fs file ln pos end =
     Inr (Some (if end \<noteq> [] then slice (readlines (read_text content) ! nat (ln - 1)) pos
                                   (str_find (readlines (read_text content) ! nat (ln - 1)) end pos)
                else slice (readlines (read_text content) ! nat (ln - 1)) pos (- 1)))"
  using assms get_version_loop_nth [of 0 ln "readlines (read_text content)" pos "end"]
  by (simp add: get_version_str_def)

lemma py_index_target:
  "1 \<le> ln \<Longrightarrow> ln \<le> int (length ls) \<Longrightarrow> py_index ls (ln - 1) = Inr (nat (ln - 1))"
  by (simp add: py_index_def)

lemma read_text_no_CR: "CR \<notin> set (read_text s)"
  by (induction s rule: read_text.induct) auto

lemma read_text_Cons: "c \<noteq> CR \<Longrightarrow> read_text (c # s) = c # read_text s"
  by (cases s) auto

lemma read_text_id: "CR \<notin> set s \<Longrightarrow> read_text s = s"
  by (induction s) (auto simp: read_text_Cons)

lemma write_text_append: "write_text l (a @ b) = write_text l a @ write_text l b"
  by (simp add: write_text_def)

lemma write_text_posix: "write_text [NL] s = s"
  by (induction s) (auto simp: write_text_def)

lemma read_write_text:
  assumes "CR \<notin> set s" "is_linesep l"
  shows "read_text (write_text l s) = s"
  using assms(1)
proof (induction s)
  case Nil
  show ?case by (simp add: write_text_def)
next
  case (Cons c s)
  then have ih: "read_text (write_text l s) = s" and c: "c \<noteq> CR" by auto
  show ?case
  proof (cases "c = NL")
    case True
    have "read_text (l @ write_text l s) = NL # read_text (write_text l s)"
      using assms(2) by (auto simp: is_linesep_def read_text_Cons)
    then show ?thesis using True ih by (simp add: write_text_def)
  next
    case False
    then have "write_text l (c # s) = c # write_text l s" by (simp add: write_text_def)
    then show ?thesis using c ih by (simp add: read_text_Cons)
  qed
qed

lemma concat_readlines: "concat (readlines s) = s"
  by (induction s) (auto split: list.splits)

lemma readlines_nonempty: "s \<noteq> [] \<Longrightarrow> readlines s \<noteq> []"
  by (cases s) (auto split: list.splits)

lemma text_split:
  assumes "k < length (readlines text)"
  shows "text = concat (take k (readlines text)) @ readlines text ! k
                     @ concat (drop (Suc k) (readlines text))"
proof -
  have "readlines text = take k (readlines text) @ readlines text ! k
          # drop (Suc k) (readlines text)"
    using assms by (rule id_take_nth_drop)
  then have "concat (readlines text) = concat (take k (readlines text) @ readlines text ! k
          # drop (Suc k) (readlines text))"
    by simp
  then show ?thesis by (simp add: concat_readlines)
qed

lemma concat_update:
  "k < length ls \<Longrightarrow> concat (ls[k := new]) = concat (take k ls) @ new @ concat (drop (Suc k) ls)"
  by (simp add: upd_conv_take_nth_drop)

lemma set_version_lines_target:
  assumes "1 \<le> ln" "ln \<le> int (length ls)"
  shows "set_version_lines ls ln pos end (Some v) =
           Inr (ls[nat (ln - 1) := new_line (ls ! nat (ln - 1)) pos end v])"
  using assms by (simp add: set_version_lines_def py_index_target)

lemma set_version_str_target:
  assumes "fs file = Some content" "1 \<le> ln" "ln \<le> int (length (readlines (read_text content)))"
  shows "set_version_str linesep fs file ln pos end (Some v) =
           Inr (fs(file \<mapsto> write_text linesep (concat ((readlines (read_text content))
                  [nat (ln - 1) := new_line (readlines (read_text content) ! nat (ln - 1)) pos end v]))))"
  using assms by (simp add: set_version_str_def set_version_lines_target)

lemma new_line_found:
  assumes "0 \<le> pos" "end \<noteq> []" "\<exists>j \<ge> nat pos. occurs_at end line j"
  shows "\<exists>j \<ge> nat pos. occurs_at end line j \<and> (\<forall>i. nat pos \<le> i \<and> i < j \<longrightarrow> \<not> occurs_at end line i)
            \<and> new_line line pos end v = take (nat pos) line @ v @ drop j line"
proof -
  have nf: "str_find line end pos \<noteq> - 1"
    using assms by (simp add: str_find_not_found)
  then obtain j where j: "str_find line end pos = int j" "nat pos \<le> j" "occurs_at end line j"
     "\<forall>i. nat pos \<le> i \<and> i < j \<longrightarrow> \<not> occurs_at end line i"
    using str_find_found [OF assms(1)] by blast
  have "new_line line pos end v = take (nat pos) line @ v @ drop j line"
    using nf assms j(1) by (simp add: new_line_def slice_to_nonneg slice_from_nat)
  then show ?thesis using j by blast
qed

lemma new_line_eol:
  assumes "0 \<le> pos" "end = [] \<or> (\<forall>j \<ge> nat pos. \<not> occurs_at end line j)"
  shows "new_line line pos end v = take (nat pos) line @ v @ [NL]"
  using assms by (auto simp: new_line_def slice_to_nonneg str_find_not_found)

lemma get_version_str_eol:
  assumes "fs file = Some content" "1 \<le> ln" "ln \<le> int (length (readlines (read_text content)))"
    "0 \<le> pos" "end = [] \<or> (\<forall>j \<ge> nat pos. \<not> occurs_at end (readlines (read_text content) ! nat (ln - 1)) j)"
  shows "get_version_str fs file ln pos end =
           Inr (Some (drop (nat pos) (butlast (readlines (read_text content) ! nat (ln - 1)))))"
proof (cases "end = []")
  case True
  then show ?thesis
    using assms by (simp add: get_version_str_nth slice_nonneg_minus_one)
next
  case False
  then have "str_find (readlines (read_text content) ! nat (ln - 1)) end pos = - 1"
    using assms by (simp add: str_find_not_found)
  then show ?thesis
    using assms False by (simp add: get_version_str_nth slice_nonneg_minus_one)
qed

lemma get_version_str_beyond_last_line:
  assumes "fs file = Some content" "int (length (readlines (read_text content))) < ln"
  shows "get_version_str fs file ln pos end = Inr None"
  using assms by (simp add: get_version_str_def get_version_loop_None)

lemma lines_ok_Nil: "lines_ok []"
  by (simp add: lines_ok_def)

lemma lines_ok_Cons:
  "lines_ok (l # ls) \<longleftrightarrow> line_ok l \<and> (ls \<noteq> [] \<longrightarrow> last l = NL) \<and> lines_ok ls"
proof
  assume a: "lines_ok (l # ls)"
  have 0: "line_ok l \<and> (ls \<noteq> [] \<longrightarrow> last l = NL)"
    using a [unfolded lines_ok_def, rule_format, of 0] by simp
  have "\<forall>i < length ls. line_ok (ls ! i) \<and> (Suc i < length ls \<longrightarrow> last (ls ! i) = NL)"
  proof (intro allI impI)
    fix i assume "i < length ls"
    then show "line_ok (ls ! i) \<and> (Suc i < length ls \<longrightarrow> last (ls ! i) = NL)"
      using a [unfolded lines_ok_def, rule_format, of "Suc i"] by simp
  qed
  then show "line_ok l \<and> (ls \<noteq> [] \<longrightarrow> last l = NL) \<and> lines_ok ls"
    using 0 by (simp add: lines_ok_def)
next
  assume a: "line_ok l \<and> (ls \<noteq> [] \<longrightarrow> last l = NL) \<and> lines_ok ls"
  show "lines_ok (l # ls)"
    unfolding lines_ok_def
  proof (intro allI impI)
    fix i assume "i < length (l # ls)"
    then show "line_ok ((l # ls) ! i) \<and> (Suc i < length (l # ls) \<longrightarrow> last ((l # ls) ! i) = NL)"
      using a by (cases i) (auto simp: lines_ok_def)
  qed
qed

lemma readlines_line:
  "NL \<notin> set p \<Longrightarrow> readlines (p @ NL # rest) = (p @ [NL]) # readlines rest"
  by (induction p) auto

lemma readlines_last_line:
  "NL \<notin> set p \<Longrightarrow> p \<noteq> [] \<Longrightarrow> readlines p = [p]"
proof (induction p)
  case Nil
  then show ?case by simp
next
  case (Cons c p)
  then show ?case by (cases p) auto
qed

lemma readlines_concat:
  "lines_ok ls \<Longrightarrow> readlines (concat ls) = ls"
proof (induction ls)
  case Nil
  show ?case by simp
next
  case (Cons l ls)
  then have ok: "line_ok l" "ls \<noteq> [] \<longrightarrow> last l = NL" "readlines (concat ls) = ls"
    by (simp_all add: lines_ok_Cons)
  have l: "l = butlast l @ [last l]" "NL \<notin> set (butlast l)"
    using ok(1) by (simp_all add: line_ok_def)
  show ?case
  proof (cases "last l = NL")
    case True
    define p where "p = butlast l"
    have lp: "l = p @ [NL]" "NL \<notin> set p"
      using l True by (simp_all add: p_def)
    have "readlines (p @ NL # concat ls) = (p @ [NL]) # readlines (concat ls)"
      using lp(2) by (rule readlines_line)
    then show ?thesis using ok(3) lp(1) by simp
  next
    case False
    then have "ls = []" using ok(2) by blast
    moreover have "NL \<notin> set l" using l False by (metis Un_iff empty_iff empty_set set_ConsD set_append)
    moreover have "l \<noteq> []" using ok(1) by (simp add: line_ok_def)
    ultimately show ?thesis by (simp add: readlines_last_line)
  qed
qed

lemma lines_ok_readlines: "lines_ok (readlines s)"
proof (induction s)
  case Nil
  show ?case by (simp add: lines_ok_Nil)
next
  case (Cons c cs)
  show ?case
  proof (cases "c = NL")
    case True
    then show ?thesis using Cons by (simp add: lines_ok_Cons line_ok_def)
  next
    case False
    show ?thesis
    proof (cases "readlines cs")
      case Nil
      then show ?thesis using False by (simp add: lines_ok_Cons line_ok_def lines_ok_Nil)
    next
      case (Cons l ls)
      then have "line_ok l" "ls \<noteq> [] \<longrightarrow> last l = NL" "lines_ok ls"
        using Cons.IH by (simp_all add: lines_ok_Cons)
      then show ?thesis using False Cons by (auto simp: lines_ok_Cons line_ok_def)
    qed
  qed
qed

lemma lines_ok_update:
  assumes "lines_ok ls" "k < length ls" "line_ok new" "Suc k < length ls \<longrightarrow> last new = NL"
  shows "lines_ok (ls[k := new])"
  unfolding lines_ok_def
proof (intro allI impI)
  fix i assume "i < length (ls[k := new])"
  then have i: "i < length ls" by simp
  show "line_ok (ls[k := new] ! i) \<and> (Suc i < length (ls[k := new]) \<longrightarrow> last (ls[k := new] ! i) = NL)"
    using assms i by (cases "i = k") (auto simp: lines_ok_def)
qed

lemma line_text_ok:
  assumes "line_ok l"
  shows "line_text l = (if last l = NL then butlast l else l)"
proof -
  have l: "l = butlast l @ [last l]" "NL \<notin> set (butlast l)"
    using assms by (simp_all add: line_ok_def)
  have "takeWhile (\<lambda>c. c \<noteq> NL) (butlast l @ [last l]) = (if last l = NL then butlast l else butlast l @ [last l])"
  proof -
    have "\<forall>x \<in> set (butlast l). x \<noteq> NL" using l(2) by auto
    then show ?thesis by (simp add: takeWhile_append2)
  qed
  then show ?thesis using l(1) by (simp add: line_text_def)
qed

lemma slice_nat:
  assumes "0 \<le> pos"
  shows "slice xs pos (int m) = drop (nat pos) (take m xs)"
proof -
  have "drop (min (nat pos) (length xs)) (take m xs) = drop (nat pos) (take m xs)"
    by (cases "nat pos \<le> length xs") (simp_all add: min_def)
  moreover have "take (min m (length xs)) xs = take m xs"
    by (simp add: min_def)
  ultimately show ?thesis using assms by (simp add: slice_def slice_bound_def)
qed

lemma occurs_at_inside:
  assumes "i < length v"
  shows "occurs_at e (v @ e @ r) i \<longleftrightarrow> occurs_at e (v @ e) i"
  using assms by (simp add: occurs_at_def)

lemma find_in_new:
  assumes "0 \<le> pos" "length P = nat pos"
  shows "str_find (P @ v @ S) end pos =
           (case first_occurrence end (v @ S) of None \<Rightarrow> - 1 | Some j \<Rightarrow> int (nat pos + j))"
  using assms by (simp add: str_find_def)

lemma extract_from_new:
  assumes pos: "0 \<le> pos" and P: "length P = nat pos"
    and S: "S = [NL] \<or> (end \<noteq> [] \<and> prefix end S)"
  shows "(if end \<noteq> [] then slice (P @ v @ S) pos (str_find (P @ v @ S) end pos)
          else slice (P @ v @ S) pos (- 1)) = v
         \<longleftrightarrow> end = [] \<or> (\<forall>i < length v. \<not> occurs_at end (v @ S) i)"
proof (cases "end = []")
  case True
  then have "S = [NL]" using S by simp
  then have "butlast (P @ v @ S) = P @ v" by (simp add: butlast_append)
  then show ?thesis using True pos P by (simp add: slice_nonneg_minus_one)
next
  case False
  note find = find_in_new [OF pos P, of v S "end"]
  show ?thesis
  proof (cases "\<exists>i < length v. occurs_at end (v @ S) i")
    case True
    then obtain i where i: "i < length v" "occurs_at end (v @ S) i" by blast
    then obtain j where j: "occurs_at end (v @ S) j" "\<forall>i' < j. \<not> occurs_at end (v @ S) i'"
      using exists_least_iff [of "occurs_at end (v @ S)"] by blast
    then have fo: "first_occurrence end (v @ S) = Some j" by (simp add: first_occurrence_Some)
    have jv: "j < length v" using i j(2) by (meson not_less order.strict_trans2)
    have "slice (P @ v @ S) pos (int (nat pos + j)) = drop (nat pos) (take (nat pos + j) (P @ v @ S))"
      using pos by (rule slice_nat)
    also have "\<dots> = take j v" using P jv by simp
    finally have "slice (P @ v @ S) pos (str_find (P @ v @ S) end pos) = take j v"
      by (simp only: find fo option.case)
    moreover have "take j v \<noteq> v" using jv by (metis length_take min.absorb4 nat_neq_iff)
    ultimately show ?thesis using False True by auto
  next
    case none: False
    show ?thesis
    proof (cases "prefix end S")
      case True
      then have "occurs_at end (v @ S) (length v)" by (simp add: occurs_at_prefix)
      then have fo: "first_occurrence end (v @ S) = Some (length v)"
        using none by (simp add: first_occurrence_Some)
      have "slice (P @ v @ S) pos (int (nat pos + length v))
              = drop (nat pos) (take (nat pos + length v) (P @ v @ S))"
        using pos by (rule slice_nat)
      also have "\<dots> = v" using P by simp
      finally have "slice (P @ v @ S) pos (str_find (P @ v @ S) end pos) = v"
        by (simp only: find fo option.case)
      then show ?thesis using False none by auto
    next
      case np: False
      then have S1: "S = [NL]" using S by blast
      have "\<not> occurs_at end (v @ S) j" for j
      proof (cases "j < length v")
        case True
        then show ?thesis using none by blast
      next
        case ge: False
        show ?thesis
        proof
          assume a: "occurs_at end (v @ S) j"
          then have "j + length end \<le> length v + 1" by (simp add: occurs_at_def S1)
          moreover have "0 < length end" using False by simp
          ultimately have "j = length v" using ge by linarith
          then have "prefix end S" using a by (simp add: occurs_at_prefix)
          then show False using np by simp
        qed
      qed
      then have "first_occurrence end (v @ S) = None" by (simp add: first_occurrence_None)
      then have "str_find (P @ v @ S) end pos = - 1" by (simp only: find option.case)
      moreover have "butlast (P @ v @ S) = P @ v" using S1 by (simp add: butlast_append)
      ultimately show ?thesis using False none pos P by (simp add: slice_nonneg_minus_one)
    qed
  qed
qed

lemma take_line_text:
  assumes "p \<le> length (line_text l)"
  shows "take p l = take p (line_text l)" "NL \<notin> set (take p l)" "length (take p l) = p"
proof -
  have l: "l = line_text l @ dropWhile (\<lambda>c. c \<noteq> NL) l"
    by (simp add: line_text_def)
  show 1: "take p l = take p (line_text l)"
    using assms by (subst l) simp
  have "set (take p (line_text l)) \<subseteq> set (line_text l)" by (rule set_take_subset)
  moreover have "NL \<notin> set (line_text l)"
    unfolding line_text_def using set_takeWhileD by fastforce
  ultimately show "NL \<notin> set (take p l)" using 1 by auto
  show "length (take p l) = p" using assms 1 by simp
qed

lemma new_line_shape:
  assumes "0 \<le> pos"
  shows "\<exists>S. new_line line pos end v = take (nat pos) line @ v @ S \<and>
             (if end \<noteq> [] \<and> (\<exists>j \<ge> nat pos. occurs_at end line j)
              then prefix end S \<and> (\<exists>j < length line. S = drop j line)
              else S = [NL])"
proof (cases "end \<noteq> [] \<and> (\<exists>j \<ge> nat pos. occurs_at end line j)")
  case True
  then obtain j where j: "occurs_at end line j"
      "new_line line pos end v = take (nat pos) line @ v @ drop j line"
    using new_line_found [OF assms, of "end" line v] by blast
  have "prefix end (drop j line)" using j(1) by (simp add: occurs_at_prefix)
  moreover have "j < length line" using j(1) True by (cases "end") (auto simp: occurs_at_def)
  ultimately show ?thesis using j(2) True by auto
next
  case False
  then have "new_line line pos end v = take (nat pos) line @ v @ [NL]"
    using assms by (intro new_line_eol) auto
  then show ?thesis using False by auto
qed

lemma rewritten_line_ok:
  assumes "line_ok line" "NL \<notin> set P" "NL \<notin> set v"
    and "S = [NL] \<or> (\<exists>j < length line. S = drop j line)"
  shows "line_ok (P @ v @ S)" "last line = NL \<longrightarrow> last (P @ v @ S) = NL"
proof -
  have S: "S \<noteq> []" using assms(4) by auto
  have "NL \<notin> set (butlast S)"
  proof (cases "S = [NL]")
    case True
    then show ?thesis by simp
  next
    case False
    then obtain j where "S = drop j line" using assms(4) by blast
    then have "butlast S = drop j (butlast line)" by (simp add: butlast_drop)
    then have "set (butlast S) \<subseteq> set (butlast line)" by (simp add: set_drop_subset)
    then show ?thesis using assms(1) by (auto simp: line_ok_def)
  qed
  moreover have "butlast (P @ v @ S) = P @ v @ butlast S"
    using S by (simp add: butlast_append)
  ultimately show "line_ok (P @ v @ S)"
    using assms(2,3) S by (simp add: line_ok_def)
  show "last line = NL \<longrightarrow> last (P @ v @ S) = NL"
    using assms(4) S by auto
qed

lemma no_CR_update:
  assumes "CR \<notin> set (concat ls)" "CR \<notin> set new" "k < length ls"
  shows "CR \<notin> set (concat (ls[k := new]))"
proof -
  have "set (concat (take k ls)) \<subseteq> set (concat ls)" "set (concat (drop (Suc k) ls)) \<subseteq> set (concat ls)"
    using set_take_subset [of k ls] set_drop_subset [of "Suc k" ls] by auto
  then show ?thesis using assms by (auto simp: concat_update)
qed

lemma rewrite_then_extract_aux:
  assumes fl: "fs file = Some content"
    and ln: "1 \<le> ln" "ln \<le> int (length (readlines (read_text content)))"
    and pos: "0 \<le> pos" "nat pos \<le> length (line_text (readlines (read_text content) ! nat (ln - 1)))"
    and v: "NL \<notin> set v" "CR \<notin> set v"
    and sep: "is_linesep linesep"
  shows "\<exists>fs'. set_version_str linesep fs file ln pos end (Some v) = Inr fs'
            \<and> (get_version_str fs' file ln pos end = Inr (Some v) \<longleftrightarrow>
                 end = [] \<or>
                 (\<forall>i < length v. \<not> occurs_at end
                    (v @ (if \<exists>j \<ge> nat pos. occurs_at end (readlines (read_text content) ! nat (ln - 1)) j
                          then end else [NL])) i))"
proof -
  define ls where "ls = readlines (read_text content)"
  define k where "k = nat (ln - 1)"
  define line where "line = ls ! k"
  define new where "new = new_line line pos end v"
  define written where "written = write_text linesep (concat (ls[k := new]))"
  define fs' where "fs' = fs(file \<mapsto> written)"
  define tail where "tail = (if \<exists>j \<ge> nat pos. occurs_at end line j then end else [NL])"
  have k: "k < length ls" using ln by (simp add: k_def ls_def)
  have ok: "lines_ok ls" by (simp add: ls_def lines_ok_readlines)
  then have line_ok: "line_ok line" and last: "Suc k < length ls \<longrightarrow> last line = NL"
    using k by (simp_all add: lines_ok_def line_def)
  have p: "nat pos \<le> length (line_text line)" using pos(2) by (simp add: line_def ls_def k_def)
  obtain S where S: "new = take (nat pos) line @ v @ S"
      "if end \<noteq> [] \<and> (\<exists>j \<ge> nat pos. occurs_at end line j)
       then prefix end S \<and> (\<exists>j < length line. S = drop j line) else S = [NL]"
    using new_line_shape [OF pos(1), of line "end" v] by (auto simp: new_def)
  have S': "S = [NL] \<or> (\<exists>j < length line. S = drop j line)"
    using S(2) by (auto split: if_splits)
  have S'': "S = [NL] \<or> (end \<noteq> [] \<and> prefix end S)"
    using S(2) by (auto split: if_splits)
  have new_ok: "line_ok new" and new_last: "last line = NL \<longrightarrow> last new = NL"
    using rewritten_line_ok [OF line_ok take_line_text(2) [OF p] v(1) S'] by (simp_all add: S(1))
  have "lines_ok (ls[k := new])"
    using ok k new_ok last new_last by (intro lines_ok_update) auto
  then have reread: "readlines (concat (ls[k := new])) = ls[k := new]"
    by (rule readlines_concat)
  have "CR \<notin> set (concat ls)" by (simp add: ls_def concat_readlines read_text_no_CR)
  moreover from this have cr_line: "CR \<notin> set line" using k by (auto simp: line_def)
  moreover have "CR \<notin> set new"
  proof -
    have "set (take (nat pos) line) \<subseteq> set line" by (rule set_take_subset)
    moreover have "set S \<subseteq> insert NL (set line)"
      using S' set_drop_subset by fastforce
    ultimately show ?thesis using cr_line v(2) by (auto simp: S(1))
  qed
  ultimately have "CR \<notin> set (concat (ls[k := new]))" using k by (intro no_CR_update)
  then have rt: "read_text written = concat (ls[k := new])"
    using sep by (simp add: written_def read_write_text)
  have st: "set_version_str linesep fs file ln pos end (Some v) = Inr fs'"
    using set_version_str_target [of fs "file" content ln linesep pos "end" v] fl ln
    by (simp add: fs'_def written_def ls_def k_def new_def line_def)
  have fl': "fs' file = Some written" by (simp add: fs'_def)
  have ln': "ln \<le> int (length (readlines (read_text written)))"
    using ln(2) unfolding rt reread by (simp add: ls_def)
  have target: "readlines (read_text written) ! nat (ln - 1) = new"
    using k unfolding rt reread by (simp add: k_def)
  have get: "get_version_str fs' file ln pos end =
          Inr (Some (if end \<noteq> [] then slice new pos (str_find new end pos) else slice new pos (- 1)))"
    using get_version_str_nth [of fs' "file" written ln pos "end"] fl' ln(1) ln'
    by (simp only: target)
  have ex: "(if end \<noteq> [] then slice new pos (str_find new end pos) else slice new pos (- 1)) = v
         \<longleftrightarrow> end = [] \<or> (\<forall>i < length v. \<not> occurs_at end (v @ S) i)"
    unfolding S(1) using extract_from_new [OF pos(1) take_line_text(3) [OF p] S''] .
  have tl: "(\<forall>i < length v. \<not> occurs_at end (v @ S) i) \<longleftrightarrow> (\<forall>i < length v. \<not> occurs_at end (v @ tail) i)"
    if "end \<noteq> []"
  proof (cases "\<exists>j \<ge> nat pos. occurs_at end line j")
    case True
    then have "prefix end S" using S(2) that by simp
    then obtain r where "S = end @ r" by (auto simp: prefix_def)
    then show ?thesis using True by (simp add: tail_def occurs_at_inside)
  next
    case False
    then have "S = [NL]" using S(2) by simp
    moreover have "tail = [NL]" unfolding tail_def using False by (simp only: if_False)
    ultimately show ?thesis by simp
  qed
  have "get_version_str fs' file ln pos end = Inr (Some v) \<longleftrightarrow>
          end = [] \<or> (\<forall>i < length v. \<not> occurs_at end (v @ tail) i)"
    using ex tl by (auto simp: get)
  then show ?thesis
    using st unfolding tail_def line_def ls_def k_def by blast
qed

section \<open>Rewriting and extracting again\<close>

text \<open>
  Rewriting and then extracting with the same descriptor does not return the new version
  for every input; here on a platform whose line separator is the newline. With the
  terminator \<^verbatim>\<open>;\<close> found in the line, the new version \<^verbatim>\<open>2;0\<close> is written and \<^verbatim>\<open>2\<close> is read
  back. With no terminator and the column 5 beyond the line \<^verbatim>\<open>ab\<close>, the new version \<^verbatim>\<open>1.0\<close>
  is written behind the newline and the empty string is read back. A new version that
  ends with a carriage return is read back without it, and one that contains a newline
  is read back up to the newline.
\<close>

theorem rewrite_then_extract_counterexample:
  "set_version_str [NL] [''a.txt'' \<mapsto> ''v=1.0;'' @ [NL]] ''a.txt'' 1 2 '';'' (Some ''2;0'')
     = Inr [''a.txt'' \<mapsto> ''v=2;0;'' @ [NL]]
   \<and> get_version_str [''a.txt'' \<mapsto> ''v=2;0;'' @ [NL]] ''a.txt'' 1 2 '';'' = Inr (Some ''2'')
   \<and> ''2'' \<noteq> ''2;0''
   \<and> set_version_str [NL] [''a.txt'' \<mapsto> ''ab'' @ [NL]] ''a.txt'' 1 5 [] (Some ''1.0'')
     = Inr [''a.txt'' \<mapsto> ''ab'' @ [NL] @ ''1.0'' @ [NL]]
   \<and> get_version_str [''a.txt'' \<mapsto> ''ab'' @ [NL] @ ''1.0'' @ [NL]] ''a.txt'' 1 5 [] = Inr (Some [])
   \<and> [] \<noteq> ''1.0''
   \<and> set_version_str [NL] [''a.txt'' \<mapsto> ''v=1.0'' @ [NL]] ''a.txt'' 1 2 [] (Some (''2.0'' @ [CR]))
     = Inr [''a.txt'' \<mapsto> ''v=2.0'' @ [CR, NL]]
   \<and> get_version_str [''a.txt'' \<mapsto> ''v=2.0'' @ [CR, NL]] ''a.txt'' 1 2 [] = Inr (Some ''2.0'')
   \<and> ''2.0'' \<noteq> ''2.0'' @ [CR]
   \<and> set_version_str [NL] [''a.txt'' \<mapsto> ''v=1.0'' @ [NL]] ''a.txt'' 1 2 [] (Some (''2'' @ [NL] @ ''0''))
     = Inr [''a.txt'' \<mapsto> ''v=2'' @ [NL] @ ''0'' @ [NL]]
   \<and> get_version_str [''a.txt'' \<mapsto> ''v=2'' @ [NL] @ ''0'' @ [NL]] ''a.txt'' 1 2 [] = Inr (Some ''2'')
   \<and> ''2'' \<noteq> ''2'' @ [NL] @ ''0''"
  by (simp add: set_version_str_def set_version_lines_def py_index_def new_line_def write_text_def
      get_version_str_def str_find_def slice_def slice_to_def slice_from_def slice_bound_def)

text \<open>
  C3 (as amended). Let the target line exist, the column be not negative and not beyond
  the text of the target line, the new version contain neither a newline nor a carriage
  return, and the platform's line separator be \<^verbatim>\<open>\n\<close> or \<^verbatim>\<open>\r\n\<close>. Then \<^verbatim>\<open>set_version_str\<close>
  with the new version succeeds, and \<^verbatim>\<open>get_version_str\<close> with the same descriptor returns
  exactly the new version afterwards if and only if no terminator is given or the
  terminator does not occur at a position inside the new version when the new version
  is followed by the terminator (when the terminator occurs in the target line at or
  after the column) or by the newline (when it does not).
\<close>

theorem rewrite_then_extract:
  assumes "fs file = Some content" "1 \<le> ln" "ln \<le> int (length (readlines (read_text content)))"
    and "0 \<le> pos" "nat pos \<le> length (line_text (readlines (read_text content) ! nat (ln - 1)))"
    and "NL \<notin> set v" "CR \<notin> set v" "is_linesep linesep"
  shows "\<exists>fs'. set_version_str linesep fs file ln pos end (Some v) = Inr fs'
            \<and> (get_version_str fs' file ln pos end = Inr (Some v) \<longleftrightarrow>
                 end = [] \<or>
                 (\<forall>i < length v. \<not> occurs_at end
                    (v @ (if \<exists>j \<ge> nat pos. occurs_at end (readlines (read_text content) ! nat (ln - 1)) j
                          then end else [NL])) i))"
  using assms by (rule rewrite_then_extract_aux)

theorem rewrite_then_extract_witness:
  "(\<exists>fs'. set_version_str [CR, NL] [''a.txt'' \<mapsto> ''<!--0.9-->'' @ [CR, NL]] ''a.txt'' 1 4 ''-->''
             (Some ''1.0-beta'') = Inr fs'
        \<and> get_version_str fs' ''a.txt'' 1 4 ''-->'' = Inr (Some ''1.0-beta''))
   \<and> (\<exists>fs'. set_version_str [NL] [''a.txt'' \<mapsto> ''v=1.0 # old'' @ [NL]] ''a.txt'' 1 2 []
             (Some ''2.0'') = Inr fs'
        \<and> get_version_str fs' ''a.txt'' 1 2 [] = Inr (Some ''2.0''))"
proof
  have inside: "\<not> occurs_at ''-->'' (''1.0-beta'' @ t) i" if "i < length ''1.0-beta''" for i t
  proof -
    from that have "i = 0 \<or> i = 1 \<or> i = 2 \<or> i = 3 \<or> i = 4 \<or> i = 5 \<or> i = 6 \<or> i = 7"
      by auto
    then show ?thesis by (auto simp: occurs_at_def)
  qed
  show "\<exists>fs'. set_version_str [CR, NL] [''a.txt'' \<mapsto> ''<!--0.9-->'' @ [CR, NL]] ''a.txt'' 1 4 ''-->''
             (Some ''1.0-beta'') = Inr fs'
        \<and> get_version_str fs' ''a.txt'' 1 4 ''-->'' = Inr (Some ''1.0-beta'')"
    using rewrite_then_extract
      [of "[''a.txt'' \<mapsto> ''<!--0.9-->'' @ [CR, NL]]" "''a.txt''" "''<!--0.9-->'' @ [CR, NL]"
          1 4 "''1.0-beta''" "[CR, NL]" "''-->''"] inside
    by (simp add: line_text_def is_linesep_def)
  show "\<exists>fs'. set_version_str [NL] [''a.txt'' \<mapsto> ''v=1.0 # old'' @ [NL]] ''a.txt'' 1 2 []
             (Some ''2.0'') = Inr fs'
        \<and> get_version_str fs' ''a.txt'' 1 2 [] = Inr (Some ''2.0'')"
    using rewrite_then_extract
      [of "[''a.txt'' \<mapsto> ''v=1.0 # old'' @ [NL]]" "''a.txt''" "''v=1.0 # old'' @ [NL]"
          1 2 "''2.0''" "[NL]" "[]"]
    by (simp add: line_text_def is_linesep_def)
qed

section \<open>A line number beyond the file\<close>

text \<open>
  C4. When the line number exceeds the number of lines of the file,
  \<^verbatim>\<open>get_version_str\<close> raises nothing: its loop ends and it returns None. On the same
  input \<^verbatim>\<open>set_version_str\<close> raises IndexError, and a package whose first location is out
  of range and whose second is not is reported as matching.
\<close>

theorem get_version_str_past_last_line:
  "(fs file = Some content \<and> int (length (readlines (read_text content))) < ln \<longrightarrow>
      get_version_str fs file ln pos end = Inr None)
   \<and> get_version_str [''a.txt'' \<mapsto> ''1.0'' @ [NL]] ''a.txt'' 2 0 [] = Inr None
   \<and> set_version_str [NL] [''a.txt'' \<mapsto> ''1.0'' @ [NL]] ''a.txt'' 2 0 [] (Some ''2.0'') = Inl IndexError
   \<and> process_config [NL] [''a.txt'' \<mapsto> ''1.0'' @ [NL], ''b.txt'' \<mapsto> ''2.0'' @ [NL]]
        [(''pkg'', [\<lparr>loc_file = ''a.txt'', loc_line = 5, loc_char = 0, loc_end = []\<rparr>,
                    \<lparr>loc_file = ''b.txt'', loc_line = 1, loc_char = 0, loc_end = []\<rparr>])] False
       = Inr ([''a.txt'' \<mapsto> ''1.0'' @ [NL], ''b.txt'' \<mapsto> ''2.0'' @ [NL]], [''All versions match''], True)"
proof (intro conjI)
  show "fs file = Some content \<and> int (length (readlines (read_text content))) < ln \<longrightarrow>
      get_version_str fs file ln pos end = Inr None"
    using get_version_str_beyond_last_line by blast
  show "get_version_str [''a.txt'' \<mapsto> ''1.0'' @ [NL]] ''a.txt'' 2 0 [] = Inr None"
    by (simp add: get_version_str_def)
  show "set_version_str [NL] [''a.txt'' \<mapsto> ''1.0'' @ [NL]] ''a.txt'' 2 0 [] (Some ''2.0'') = Inl IndexError"
    by (simp add: set_version_str_def set_version_lines_def py_index_def)
  show "process_config [NL] [''a.txt'' \<mapsto> ''1.0'' @ [NL], ''b.txt'' \<mapsto> ''2.0'' @ [NL]]
        [(''pkg'', [\<lparr>loc_file = ''a.txt'', loc_line = 5, loc_char = 0, loc_end = []\<rparr>,
                    \<lparr>loc_file = ''b.txt'', loc_line = 1, loc_char = 0, loc_end = []\<rparr>])] False
       = Inr ([''a.txt'' \<mapsto> ''1.0'' @ [NL], ''b.txt'' \<mapsto> ''2.0'' @ [NL]], [''All versions match''], True)"
    by (simp add: process_config_def process_package_def get_version_str_def versions_match_def
        slice_def slice_bound_def)
qed

theorem get_version_str_past_last_line_witness:
  "get_version_str [''a.txt'' \<mapsto> ''1.0'' @ [NL] @ ''x''] ''a.txt'' 7 3 '';'' = Inr None"
  using get_version_str_past_last_line
    [of "[''a.txt'' \<mapsto> ''1.0'' @ [NL] @ ''x'']" "''a.txt''" "''1.0'' @ [NL] @ ''x''" 7 3 "'';''"]
  by simp

section \<open>Extraction to the end of the line\<close>

text \<open>
  C7. With no terminator, or one that does not occur from the column on,
  \<^verbatim>\<open>get_version_str\<close> returns the target line from the column on without its last
  character, whatever that character is. On a line that ends with a newline this strips
  the newline; on a last line without a newline it removes a character of the version:
  from the one-line file \<^verbatim>\<open>1.2.3\<close> it returns \<^verbatim>\<open>1.2.\<close>.
\<close>

theorem get_version_str_drops_last_character:
  "(fs file = Some content \<and> 1 \<le> ln \<and> ln \<le> int (length (readlines (read_text content))) \<and> 0 \<le> pos
      \<and> (end = [] \<or> (\<forall>j \<ge> nat pos. \<not> occurs_at end (readlines (read_text content) ! nat (ln - 1)) j))
     \<longrightarrow> get_version_str fs file ln pos end
           = Inr (Some (drop (nat pos) (butlast (readlines (read_text content) ! nat (ln - 1))))))
   \<and> get_version_str [''a.txt'' \<mapsto> ''1.2.3''] ''a.txt'' 1 0 [] = Inr (Some ''1.2.'')
   \<and> get_version_str [''a.txt'' \<mapsto> ''v=1'' @ [NL] @ ''w=2.5''] ''a.txt'' 2 2 [] = Inr (Some ''2.'')"
proof (intro conjI)
  show "fs file = Some content \<and> 1 \<le> ln \<and> ln \<le> int (length (readlines (read_text content))) \<and> 0 \<le> pos
      \<and> (end = [] \<or> (\<forall>j \<ge> nat pos. \<not> occurs_at end (readlines (read_text content) ! nat (ln - 1)) j))
     \<longrightarrow> get_version_str fs file ln pos end
           = Inr (Some (drop (nat pos) (butlast (readlines (read_text content) ! nat (ln - 1)))))"
    using get_version_str_eol by blast
  show "get_version_str [''a.txt'' \<mapsto> ''1.2.3''] ''a.txt'' 1 0 [] = Inr (Some ''1.2.'')"
    by (simp add: get_version_str_def slice_def slice_bound_def)
  show "get_version_str [''a.txt'' \<mapsto> ''v=1'' @ [NL] @ ''w=2.5''] ''a.txt'' 2 2 [] = Inr (Some ''2.'')"
    by (simp add: get_version_str_def slice_def slice_bound_def)
qed

theorem get_version_str_drops_last_character_witness:
  "get_version_str [''a.txt'' \<mapsto> ''v=1.2.3'' @ [NL]] ''a.txt'' 1 2 [] = Inr (Some ''1.2.3'')"
  using get_version_str_drops_last_character
    [of "[''a.txt'' \<mapsto> ''v=1.2.3'' @ [NL]]" "''a.txt''" "''v=1.2.3'' @ [NL]" 1 2 "[]"]
  by simp

lemma set_version_lines_eol:
  assumes "1 \<le> ln" "ln \<le> int (length ls)" "0 \<le> pos"
    "\<forall>j \<ge> nat pos. \<not> occurs_at end (ls ! nat (ln - 1)) j"
  shows "set_version_lines ls ln pos end version = set_version_lines ls ln pos [] version"
proof -
  have "new_line (ls ! nat (ln - 1)) pos end v = new_line (ls ! nat (ln - 1)) pos [] v" for v
    using assms(3,4) by (simp add: new_line_eol)
  then show ?thesis
    using assms(1,2) by (simp add: set_version_lines_def py_index_target split: option.splits)
qed

text \<open>
  C6. When a terminator is given and does not occur in the target line at or after the
  column, \<^verbatim>\<open>get_version_str\<close> returns what it returns with no terminator, and
  \<^verbatim>\<open>set_version_str\<close> produces the file system it produces with no terminator.
\<close>

theorem terminator_not_found_is_end_of_line:
  assumes "fs file = Some content" "1 \<le> ln" "ln \<le> int (length (readlines (read_text content)))"
    and "0 \<le> pos" "end \<noteq> []"
    and "\<forall>j \<ge> nat pos. \<not> occurs_at end (readlines (read_text content) ! nat (ln - 1)) j"
  shows "get_version_str fs file ln pos end = get_version_str fs file ln pos []
         \<and> set_version_str linesep fs file ln pos end version = set_version_str linesep fs file ln pos [] version"
proof
  show "get_version_str fs file ln pos end = get_version_str fs file ln pos []"
    using assms by (simp add: get_version_str_eol)
  show "set_version_str linesep fs file ln pos end version = set_version_str linesep fs file ln pos [] version"
    using assms set_version_lines_eol [of ln "readlines (read_text content)" pos "end" version]
    by (simp add: set_version_str_def)
qed

theorem terminator_not_found_is_end_of_line_witness:
  "get_version_str [''a.txt'' \<mapsto> ''v=1.2.3 # x'' @ [NL]] ''a.txt'' 1 2 '';''
     = get_version_str [''a.txt'' \<mapsto> ''v=1.2.3 # x'' @ [NL]] ''a.txt'' 1 2 []
   \<and> set_version_str [NL] [''a.txt'' \<mapsto> ''v=1.2.3 # x'' @ [NL]] ''a.txt'' 1 2 '';'' (Some ''2.0'')
     = set_version_str [NL] [''a.txt'' \<mapsto> ''v=1.2.3 # x'' @ [NL]] ''a.txt'' 1 2 [] (Some ''2.0'')"
proof -
  have "str_find (''v=1.2.3 # x'' @ [NL]) '';'' 2 = - 1"
    by (simp add: str_find_def)
  then have nf: "\<forall>j \<ge> nat 2. \<not> occurs_at '';'' (readlines (''v=1.2.3 # x'' @ [NL]) ! nat (1 - 1)) j"
    using str_find_not_found [of 2 "''v=1.2.3 # x'' @ [NL]" "'';''"] by simp
  show ?thesis
    using terminator_not_found_is_end_of_line
      [of "[''a.txt'' \<mapsto> ''v=1.2.3 # x'' @ [NL]]" "''a.txt''" "''v=1.2.3 # x'' @ [NL]" 1 2 "'';''"
          "[NL]" "Some ''2.0''"] nf
    by simp
qed

lemma get_version_str_error: "get_version_str fs file ln pos end = Inl e \<Longrightarrow> e = FileNotFoundError"
  by (auto simp: get_version_str_def split: option.splits)

lemma set_version_str_error:
  "set_version_str linesep fs file ln pos end v = Inl e \<Longrightarrow> e \<noteq> AssertionError"
  by (auto simp: set_version_str_def set_version_lines_def py_index_def
      split: option.splits sum.splits if_splits)

lemma read_versions_error: "read_versions fs pc vs = Inl e \<Longrightarrow> e = FileNotFoundError"
proof (induction pc arbitrary: vs)
  case Nil
  then show ?case by simp
next
  case (Cons fc pc)
  then show ?case by (auto split: sum.splits dest: get_version_str_error)
qed

lemma highest_loop_error: "highest_loop st vs = Inl e \<Longrightarrow> e = TypeError"
  by (induction st vs rule: highest_loop.induct) (auto simp: Let_def split: if_splits option.splits)

lemma upgrade_loop_error: "upgrade_loop linesep fs pc vs hv = Inl e \<Longrightarrow> e \<noteq> AssertionError"
proof (induction pc arbitrary: fs)
  case Nil
  then show ?case by simp
next
  case (Cons fc pc)
  then show ?case
    by (auto split: option.splits if_splits sum.splits prod.splits dest: set_version_str_error)
qed

lemma process_package_error:
  "process_package linesep fs name pc upgrade = Inl e \<Longrightarrow> e \<noteq> AssertionError"
  unfolding process_package_def get_highest_version_def
  by (auto split: sum.splits if_splits prod.splits
      dest: read_versions_error highest_loop_error upgrade_loop_error)

lemma process_package_upgrade:
  "process_package linesep fs name pc True = Inr (fs', out, r) \<Longrightarrow> r = None"
  unfolding process_package_def
  by (auto split: sum.splits if_splits prod.splits)

lemma packages_loop_error:
  "packages_loop linesep fs config upgrade ups = Inl e \<Longrightarrow> e \<noteq> AssertionError"
proof (induction config arbitrary: fs ups)
  case Nil
  then show ?case by simp
next
  case (Cons p config)
  obtain name pc where p: "p = (name, pc)" by (cases p)
  show ?case
  proof (cases "process_package linesep fs name pc upgrade")
    case (Inl e')
    then show ?thesis using Cons.prems p process_package_error by auto
  next
    case (Inr r)
    obtain fs' out to where r: "r = (fs', out, to)" by (cases r)
    then show ?thesis
      using Cons.prems p Inr Cons.IH by (auto split: sum.splits)
  qed
qed

lemma packages_loop_upgrade:
  "packages_loop linesep fs config True ups = Inr (fs', out, ups') \<Longrightarrow> ups' = ups"
proof (induction config arbitrary: fs ups out)
  case Nil
  then show ?case by simp
next
  case (Cons p config)
  obtain name pc where p: "p = (name, pc)" by (cases p)
  show ?case
  proof (cases "process_package linesep fs name pc True")
    case (Inl e')
    then show ?thesis using Cons.prems p by simp
  next
    case (Inr r)
    obtain fs1 out1 to where r: "r = (fs1, out1, to)" by (cases r)
    then have "to = None" using Inr process_package_upgrade by blast
    then show ?thesis
      using Cons.prems p Inr r Cons.IH [of fs1 ups] by (auto split: sum.splits)
  qed
qed

lemma process_config_upgrade:
  "process_config linesep fs config True =
     (case packages_loop linesep fs config True [] of
        Inl e \<Rightarrow> Inl e
      | Inr (fs', out, ups) \<Rightarrow> Inr (fs', out @ [''All versions match''], True))"
  using packages_loop_upgrade [of linesep fs config "[]"]
  by (auto simp: process_config_def split: sum.splits)

section \<open>What rewriting leaves unchanged\<close>

text \<open>
  The other lines are not written back byte for byte in every file. Where the line
  separator is \<^verbatim>\<open>\n\<close>, rewriting line 2 of a file whose lines end with \<^verbatim>\<open>\r\n\<close> stores every
  line with \<^verbatim>\<open>\n\<close>, the first line and what follows the terminator in the target line
  included. Where the line separator is \<^verbatim>\<open>\r\n\<close>, a file whose lines end with \<^verbatim>\<open>\n\<close> is stored
  with \<^verbatim>\<open>\r\n\<close>.
\<close>

theorem set_version_str_frame_counterexample:
  "set_version_str [NL] [''a.txt'' \<mapsto> ''x'' @ [CR, NL] @ ''v=1.0;'' @ [CR, NL]]
       ''a.txt'' 2 2 '';'' (Some ''2.0'')
     = Inr [''a.txt'' \<mapsto> ''x'' @ [NL] @ ''v=2.0;'' @ [NL]]
   \<and> ''x'' @ [CR, NL] \<noteq> ''x'' @ [NL]
   \<and> set_version_str [CR, NL] [''a.txt'' \<mapsto> ''x'' @ [NL] @ ''v=1.0;'' @ [NL]]
       ''a.txt'' 2 2 '';'' (Some ''2.0'')
     = Inr [''a.txt'' \<mapsto> ''x'' @ [CR, NL] @ ''v=2.0;'' @ [CR, NL]]
   \<and> ''x'' @ [NL] \<noteq> ''x'' @ [CR, NL]"
  by (simp add: set_version_str_def set_version_lines_def py_index_def new_line_def write_text_def
      str_find_def slice_to_def slice_from_def slice_bound_def)

text \<open>
  C5 (as amended). \<^verbatim>\<open>set_version_str\<close> on an existing line replaces that one element of
  the list \<^verbatim>\<open>lines\<close> it read: the list keeps its length and every other line. What it
  stores is the text before the target line, the new line and the text after the target
  line, each with its newlines stored as the platform's line separator. So the content
  before and after the target line is preserved byte for byte when the file's line
  endings are the platform's line separator, in particular when the separator is \<^verbatim>\<open>\n\<close>
  and the file holds no carriage return. When the terminator is given and occurs at or
  after the column, the new line is the line read up to the column, the new version,
  and the line read from the first such occurrence of the terminator on.
\<close>

theorem set_version_str_frame:
  assumes "fs file = Some content" "1 \<le> ln" "ln \<le> int (length (readlines (read_text content)))"
  shows "\<exists>new.
      set_version_lines (readlines (read_text content)) ln pos end (Some v)
        = Inr ((readlines (read_text content))[nat (ln - 1) := new])
    \<and> length ((readlines (read_text content))[nat (ln - 1) := new])
        = length (readlines (read_text content))
    \<and> (\<forall>k < length (readlines (read_text content)). k \<noteq> nat (ln - 1) \<longrightarrow>
          (readlines (read_text content))[nat (ln - 1) := new] ! k = readlines (read_text content) ! k)
    \<and> read_text content = concat (take (nat (ln - 1)) (readlines (read_text content)))
                  @ readlines (read_text content) ! nat (ln - 1)
                  @ concat (drop (nat ln) (readlines (read_text content)))
    \<and> set_version_str linesep fs file ln pos end (Some v)
        = Inr (fs(file \<mapsto>
                 write_text linesep (concat (take (nat (ln - 1)) (readlines (read_text content))))
                 @ write_text linesep new
                 @ write_text linesep (concat (drop (nat ln) (readlines (read_text content))))))
    \<and> (is_linesep linesep \<and> (\<exists>text. CR \<notin> set text \<and> content = write_text linesep text) \<longrightarrow>
          content = write_text linesep (concat (take (nat (ln - 1)) (readlines (read_text content))))
                 @ write_text linesep (readlines (read_text content) ! nat (ln - 1))
                 @ write_text linesep (concat (drop (nat ln) (readlines (read_text content)))))
    \<and> (linesep = [NL] \<and> CR \<notin> set content \<longrightarrow>
          content = concat (take (nat (ln - 1)) (readlines (read_text content)))
                  @ readlines (read_text content) ! nat (ln - 1)
                  @ concat (drop (nat ln) (readlines (read_text content)))
          \<and> set_version_str linesep fs file ln pos end (Some v)
              = Inr (fs(file \<mapsto> concat (take (nat (ln - 1)) (readlines (read_text content)))
                              @ new
                              @ concat (drop (nat ln) (readlines (read_text content))))))
    \<and> (0 \<le> pos \<and> end \<noteq> []
          \<and> (\<exists>j \<ge> nat pos. occurs_at end (readlines (read_text content) ! nat (ln - 1)) j)
        \<longrightarrow> (\<exists>j \<ge> nat pos. occurs_at end (readlines (read_text content) ! nat (ln - 1)) j
               \<and> (\<forall>i. nat pos \<le> i \<and> i < j \<longrightarrow>
                      \<not> occurs_at end (readlines (read_text content) ! nat (ln - 1)) i)
               \<and> new = take (nat pos) (readlines (read_text content) ! nat (ln - 1)) @ v
                         @ drop j (readlines (read_text content) ! nat (ln - 1))
               \<and> drop (nat pos + length v) new
                   = drop j (readlines (read_text content) ! nat (ln - 1))))"
proof -
  define ls where "ls = readlines (read_text content)"
  define k where "k = nat (ln - 1)"
  define new where "new = new_line (ls ! k) pos end v"
  define before where "before = concat (take k ls)"
  define after where "after = concat (drop (nat ln) ls)"
  have k: "k < length ls" "Suc k = nat ln" using assms(2,3) by (simp_all add: k_def ls_def)
  have 1: "set_version_lines ls ln pos end (Some v) = Inr (ls[k := new])"
    using assms(2,3) by (simp add: set_version_lines_target ls_def k_def new_def)
  have 2: "length (ls[k := new]) = length ls" by simp
  have 3: "\<forall>i < length ls. i \<noteq> k \<longrightarrow> ls[k := new] ! i = ls ! i" by simp
  have 4: "read_text content = before @ ls ! k @ after"
    using text_split [of k "read_text content"] k by (simp add: ls_def before_def after_def)
  have 5: "set_version_str linesep fs file ln pos end (Some v)
             = Inr (fs(file \<mapsto> write_text linesep before @ write_text linesep new
                                   @ write_text linesep after))"
    using set_version_str_target [of fs "file" content ln linesep pos "end" v] assms
      concat_update [of k ls new] k
    by (simp add: ls_def k_def new_def before_def after_def write_text_append)
  have 6: "is_linesep linesep \<and> (\<exists>text. CR \<notin> set text \<and> content = write_text linesep text) \<longrightarrow>
          content = write_text linesep before @ write_text linesep (ls ! k)
                      @ write_text linesep after"
  proof
    assume a: "is_linesep linesep \<and> (\<exists>text. CR \<notin> set text \<and> content = write_text linesep text)"
    then obtain t0 where t: "CR \<notin> set t0" "content = write_text linesep t0" by blast
    then have "read_text content = t0" using a by (simp add: read_write_text)
    then have "t0 = before @ ls ! k @ after" using 4 by simp
    then show "content = write_text linesep before @ write_text linesep (ls ! k)
                      @ write_text linesep after"
      using t(2) by (simp add: write_text_append)
  qed
  have 7: "linesep = [NL] \<and> CR \<notin> set content \<longrightarrow>
          content = before @ ls ! k @ after
          \<and> set_version_str linesep fs file ln pos end (Some v)
              = Inr (fs(file \<mapsto> before @ new @ after))"
    using 4 5 by (auto simp: read_text_id write_text_posix)
  have 8: "0 \<le> pos \<and> end \<noteq> [] \<and> (\<exists>j \<ge> nat pos. occurs_at end (ls ! k) j)
        \<longrightarrow> (\<exists>j \<ge> nat pos. occurs_at end (ls ! k) j
               \<and> (\<forall>i. nat pos \<le> i \<and> i < j \<longrightarrow> \<not> occurs_at end (ls ! k) i)
               \<and> new = take (nat pos) (ls ! k) @ v @ drop j (ls ! k)
               \<and> drop (nat pos + length v) new = drop j (ls ! k))"
  proof
    assume a: "0 \<le> pos \<and> end \<noteq> [] \<and> (\<exists>j \<ge> nat pos. occurs_at end (ls ! k) j)"
    then obtain j where j: "nat pos \<le> j" "occurs_at end (ls ! k) j"
        "\<forall>i. nat pos \<le> i \<and> i < j \<longrightarrow> \<not> occurs_at end (ls ! k) i"
        "new = take (nat pos) (ls ! k) @ v @ drop j (ls ! k)"
      using new_line_found [of pos "end" "ls ! k" v] unfolding new_def by blast
    have "j \<le> length (ls ! k)" using j(2) by (simp add: occurs_at_def)
    then have "length (take (nat pos) (ls ! k)) = nat pos" using j(1) by simp
    then have "drop (nat pos + length v) new = drop j (ls ! k)" by (simp add: j(4))
    then show "\<exists>j \<ge> nat pos. occurs_at end (ls ! k) j
               \<and> (\<forall>i. nat pos \<le> i \<and> i < j \<longrightarrow> \<not> occurs_at end (ls ! k) i)
               \<and> new = take (nat pos) (ls ! k) @ v @ drop j (ls ! k)
               \<and> drop (nat pos + length v) new = drop j (ls ! k)"
      using j by blast
  qed
  show ?thesis
    using 1 2 3 4 5 6 7 8 unfolding ls_def k_def before_def after_def
    by (intro exI [of _ new]) blast
qed

theorem set_version_str_frame_witness:
  "\<exists>new. set_version_str [NL] [''a.txt'' \<mapsto> ''x'' @ [NL] @ ''v=1.0;'' @ [NL] @ ''y'' @ [NL]]
             ''a.txt'' 2 2 '';'' (Some ''2.0'')
          = Inr [''a.txt'' \<mapsto> ''x'' @ [NL] @ new @ ''y'' @ [NL]]
        \<and> (\<exists>j \<ge> 2. occurs_at '';'' (''v=1.0;'' @ [NL]) j
               \<and> drop 5 new = drop j (''v=1.0;'' @ [NL]))"
proof -
  have found: "\<exists>j \<ge> nat 2. occurs_at '';'' (''v=1.0;'' @ [NL]) j"
    by (intro exI [of _ 5]) (simp add: occurs_at_def)
  obtain new where new:
    "set_version_str [NL] [''a.txt'' \<mapsto> ''x'' @ [NL] @ ''v=1.0;'' @ [NL] @ ''y'' @ [NL]]
             ''a.txt'' 2 2 '';'' (Some ''2.0'')
       = Inr [''a.txt'' \<mapsto> ''x'' @ [NL] @ new @ ''y'' @ [NL]]"
    "\<exists>j \<ge> 2. occurs_at '';'' (''v=1.0;'' @ [NL]) j \<and> drop 5 new = drop j (''v=1.0;'' @ [NL])"
    using set_version_str_frame
      [of "[''a.txt'' \<mapsto> ''x'' @ [NL] @ ''v=1.0;'' @ [NL] @ ''y'' @ [NL]]" "''a.txt''"
          "''x'' @ [NL] @ ''v=1.0;'' @ [NL] @ ''y'' @ [NL]" 2 2 "'';''" "''2.0''" "[NL]"] found
    by auto
  then show ?thesis by blast
qed

lemma upgrade_scenario:
  "packages_loop [NL] [''a.txt'' \<mapsto> ''version = 0.9;'' @ [NL], ''b.txt'' \<mapsto> ''V=1.0'' @ [NL]]
     [(''pkg'', [\<lparr>loc_file = ''a.txt'', loc_line = 1, loc_char = 10, loc_end = '';''\<rparr>,
                 \<lparr>loc_file = ''b.txt'', loc_line = 1, loc_char = 2, loc_end = []\<rparr>])] True []
   = Inr ([''a.txt'' \<mapsto> ''version = 1.0;'' @ [NL], ''b.txt'' \<mapsto> ''V=1.0'' @ [NL]],
          [''Upgrading pkg to version 1.0'', ''  Updated a.txt'', []], [])"
  by (simp add: process_package_def get_version_str_def versions_match_def get_highest_version_def
      tokens_def is_digit_def int_of_digits_def digit_value_def replaces_from.simps str_of_def
      set_version_str_def set_version_lines_def py_index_def new_line_def write_text_def
      str_find_def slice_def slice_to_def slice_from_def slice_bound_def fun_upd_twist)

section \<open>Upgrade mode\<close>

text \<open>
  In upgrade mode \<^verbatim>\<open>process_config\<close> does not return for every configuration: a file
  that cannot be opened raises FileNotFoundError, and a package whose versions differ
  and contain no digit raises TypeError when None is written.
\<close>

theorem process_config_upgrade_counterexample:
  "process_config [NL] Map.empty
     [(''pkg'', [\<lparr>loc_file = ''a.txt'', loc_line = 1, loc_char = 0, loc_end = []\<rparr>])] True
   = Inl FileNotFoundError
   \<and> process_config [NL] [''a.txt'' \<mapsto> ''alpha'' @ [NL], ''b.txt'' \<mapsto> ''beta'' @ [NL]]
       [(''pkg'', [\<lparr>loc_file = ''a.txt'', loc_line = 1, loc_char = 0, loc_end = []\<rparr>,
                   \<lparr>loc_file = ''b.txt'', loc_line = 1, loc_char = 0, loc_end = []\<rparr>])] True
     = Inl TypeError"
  by (simp add: process_config_def process_package_def get_version_str_def versions_match_def
      get_highest_version_def tokens_def is_digit_def set_version_str_def set_version_lines_def
      py_index_def slice_def slice_bound_def)

text \<open>
  C9 (as amended). In upgrade mode \<^verbatim>\<open>process_config\<close> never raises the AssertionError of
  its last line: \<^verbatim>\<open>process_package\<close> returns None whenever it returns, so the loop over
  the packages leaves \<^verbatim>\<open>upgrades\<close> empty, and \<^verbatim>\<open>process_config\<close> returns success
  whenever that loop ends without an exception; an exception of the loop propagates
  unchanged.
\<close>

theorem process_config_upgrade_never_asserts:
  "process_config linesep fs config True \<noteq> Inl AssertionError
   \<and> (\<forall>fs' out r. process_package linesep fs name package_config True = Inr (fs', out, r) \<longrightarrow> r = None)
   \<and> (\<forall>fs' out ups. packages_loop linesep fs config True [] = Inr (fs', out, ups) \<longrightarrow>
         ups = [] \<and> (\<exists>out'. process_config linesep fs config True = Inr (fs', out', True)))
   \<and> (\<forall>e. packages_loop linesep fs config True [] = Inl e \<longrightarrow> process_config linesep fs config True = Inl e)"
proof (intro conjI)
  show "process_config linesep fs config True \<noteq> Inl AssertionError"
    using packages_loop_error [of linesep fs config True "[]"]
    by (auto simp: process_config_upgrade split: sum.splits)
  show "\<forall>fs' out r. process_package linesep fs name package_config True = Inr (fs', out, r) \<longrightarrow> r = None"
    using process_package_upgrade by blast
  show "\<forall>fs' out ups. packages_loop linesep fs config True [] = Inr (fs', out, ups) \<longrightarrow>
         ups = [] \<and> (\<exists>out'. process_config linesep fs config True = Inr (fs', out', True))"
    using packages_loop_upgrade [of linesep fs config "[]"] by (auto simp: process_config_upgrade)
  show "\<forall>e. packages_loop linesep fs config True [] = Inl e \<longrightarrow> process_config linesep fs config True = Inl e"
    by (simp add: process_config_upgrade)
qed

theorem process_config_upgrade_never_asserts_witness:
  "\<exists>fs' out'. process_config [NL]
       [''a.txt'' \<mapsto> ''version = 0.9;'' @ [NL], ''b.txt'' \<mapsto> ''V=1.0'' @ [NL]]
       [(''pkg'', [\<lparr>loc_file = ''a.txt'', loc_line = 1, loc_char = 10, loc_end = '';''\<rparr>,
                   \<lparr>loc_file = ''b.txt'', loc_line = 1, loc_char = 2, loc_end = []\<rparr>])] True
     = Inr (fs', out', True)"
  using process_config_upgrade_never_asserts
    [of "[NL]" "[''a.txt'' \<mapsto> ''version = 0.9;'' @ [NL], ''b.txt'' \<mapsto> ''V=1.0'' @ [NL]]"
        "[(''pkg'', [\<lparr>loc_file = ''a.txt'', loc_line = 1, loc_char = 10, loc_end = '';''\<rparr>,
                   \<lparr>loc_file = ''b.txt'', loc_line = 1, loc_char = 2, loc_end = []\<rparr>])]"]
    upgrade_scenario
  by blast

text \<open>
  In upgrade mode the last output is not \<^verbatim>\<open>All versions match\<close> for every configuration:
  here the first package is upgraded and the file of the second cannot be opened, so
  the run ends with FileNotFoundError.
\<close>

theorem process_config_all_match_counterexample:
  "process_config [NL] [''a.txt'' \<mapsto> ''version = 0.9;'' @ [NL], ''b.txt'' \<mapsto> ''V=1.0'' @ [NL]]
     [(''pkg'', [\<lparr>loc_file = ''a.txt'', loc_line = 1, loc_char = 10, loc_end = '';''\<rparr>,
                 \<lparr>loc_file = ''b.txt'', loc_line = 1, loc_char = 2, loc_end = []\<rparr>]),
      (''other'', [\<lparr>loc_file = ''c.txt'', loc_line = 1, loc_char = 0, loc_end = []\<rparr>])] True
   = Inl FileNotFoundError"
  by (simp add: process_config_def process_package_def get_version_str_def versions_match_def get_highest_version_def
      tokens_def is_digit_def int_of_digits_def digit_value_def replaces_from.simps str_of_def
      set_version_str_def set_version_lines_def py_index_def new_line_def write_text_def
      str_find_def slice_def slice_to_def slice_from_def slice_bound_def fun_upd_twist)

text \<open>
  C10 (as amended). In upgrade mode, whenever \<^verbatim>\<open>process_config\<close> returns, it returns
  success and the last line it printed is \<^verbatim>\<open>All versions match\<close>, also when versions
  differed and files were rewritten, as in the run of the last conjunct.
\<close>

theorem process_config_upgrade_prints_all_match:
  "(\<forall>fs' out ok. process_config linesep fs config True = Inr (fs', out, ok) \<longrightarrow>
       ok \<and> out \<noteq> [] \<and> last out = ''All versions match'')
   \<and> (\<forall>fs' out ups. packages_loop linesep fs config True [] = Inr (fs', out, ups) \<longrightarrow>
         process_config linesep fs config True = Inr (fs', out @ [''All versions match''], True))
   \<and> process_config [NL] [''a.txt'' \<mapsto> ''version = 0.9;'' @ [NL], ''b.txt'' \<mapsto> ''V=1.0'' @ [NL]]
       [(''pkg'', [\<lparr>loc_file = ''a.txt'', loc_line = 1, loc_char = 10, loc_end = '';''\<rparr>,
                   \<lparr>loc_file = ''b.txt'', loc_line = 1, loc_char = 2, loc_end = []\<rparr>])] True
     = Inr ([''a.txt'' \<mapsto> ''version = 1.0;'' @ [NL], ''b.txt'' \<mapsto> ''V=1.0'' @ [NL]],
            [''Upgrading pkg to version 1.0'', ''  Updated a.txt'', [], ''All versions match''],
            True)"
proof (intro conjI)
  show "\<forall>fs' out ok. process_config linesep fs config True = Inr (fs', out, ok) \<longrightarrow>
       ok \<and> out \<noteq> [] \<and> last out = ''All versions match''"
    by (auto simp: process_config_upgrade split: sum.splits)
  show "\<forall>fs' out ups. packages_loop linesep fs config True [] = Inr (fs', out, ups) \<longrightarrow>
         process_config linesep fs config True = Inr (fs', out @ [''All versions match''], True)"
    by (simp add: process_config_upgrade)
  show "process_config [NL] [''a.txt'' \<mapsto> ''version = 0.9;'' @ [NL], ''b.txt'' \<mapsto> ''V=1.0'' @ [NL]]
       [(''pkg'', [\<lparr>loc_file = ''a.txt'', loc_line = 1, loc_char = 10, loc_end = '';''\<rparr>,
                   \<lparr>loc_file = ''b.txt'', loc_line = 1, loc_char = 2, loc_end = []\<rparr>])] True
     = Inr ([''a.txt'' \<mapsto> ''version = 1.0;'' @ [NL], ''b.txt'' \<mapsto> ''V=1.0'' @ [NL]],
            [''Upgrading pkg to version 1.0'', ''  Updated a.txt'', [], ''All versions match''],
            True)"
    by (subst process_config_upgrade, subst upgrade_scenario, simp)
qed

theorem process_config_upgrade_prints_all_match_witness:
  "process_config [NL] [''a.txt'' \<mapsto> ''0.9'' @ [NL], ''b.txt'' \<mapsto> ''1.0'' @ [NL]]
       [(''pkg'', [\<lparr>loc_file = ''a.txt'', loc_line = 1, loc_char = 0, loc_end = []\<rparr>,
                   \<lparr>loc_file = ''b.txt'', loc_line = 1, loc_char = 0, loc_end = []\<rparr>])] True
     = Inr ([''a.txt'' \<mapsto> ''1.0'' @ [NL], ''b.txt'' \<mapsto> ''1.0'' @ [NL]],
            [''Upgrading pkg to version 1.0'', ''  Updated a.txt'', []] @ [''All versions match''],
            True)"
proof -
  have "packages_loop [NL] [''a.txt'' \<mapsto> ''0.9'' @ [NL], ''b.txt'' \<mapsto> ''1.0'' @ [NL]]
       [(''pkg'', [\<lparr>loc_file = ''a.txt'', loc_line = 1, loc_char = 0, loc_end = []\<rparr>,
                   \<lparr>loc_file = ''b.txt'', loc_line = 1, loc_char = 0, loc_end = []\<rparr>])] True []
     = Inr ([''a.txt'' \<mapsto> ''1.0'' @ [NL], ''b.txt'' \<mapsto> ''1.0'' @ [NL]],
            [''Upgrading pkg to version 1.0'', ''  Updated a.txt'', []], [])"
    by (simp add: process_package_def get_version_str_def versions_match_def get_highest_version_def
      tokens_def is_digit_def int_of_digits_def digit_value_def replaces_from.simps str_of_def
      set_version_str_def set_version_lines_def py_index_def new_line_def write_text_def
      str_find_def slice_def slice_to_def slice_from_def slice_bound_def fun_upd_twist)
  then show ?thesis
    using process_config_upgrade_prints_all_match
      [of "[NL]" "[''a.txt'' \<mapsto> ''0.9'' @ [NL], ''b.txt'' \<mapsto> ''1.0'' @ [NL]]"
        "[(''pkg'', [\<lparr>loc_file = ''a.txt'', loc_line = 1, loc_char = 0, loc_end = []\<rparr>,
                   \<lparr>loc_file = ''b.txt'', loc_line = 1, loc_char = 0, loc_end = []\<rparr>])]"]
    by blast
qed

end
